theory Spec2Isabelle
  imports Main "HOL-Library.Word" "HOL-Library.Code_Target_Nat"
begin

unbundle bit_operations_syntax

section \<open>The TLV cursor\<close>

text \<open>
  Modelled from the spec: the TLV cursor of spec section 4.1. The source imports it as
  the package \<^verbatim>\<open>golang.org/x/crypto/cryptobyte\<close>, which is not among the
  repository's own files. The definitions of this section follow that package function by
  function and keep its names.

  A \<^verbatim>\<open>cryptobyte.String\<close> is a Go byte slice: a pointer into a backing array
  and a length. The decoder never writes to the array, so a slice is modelled by the
  address \<open>ptr\<close> of its first byte together with the bytes it shows while the decoder
  runs. Taking a sub-slice (\<^verbatim>\<open>s[:n]\<close>, \<^verbatim>\<open>s[n:]\<close>) moves the address and
  copies nothing.
\<close>

type_synonym byte = "8 word"

type_synonym Tag = "8 word"

record String =
  ptr :: nat
  bytes :: "byte list"

definition SEQUENCE :: Tag where "SEQUENCE = 0x30"
definition SET :: Tag where "SET = 0x31"
definition INTEGER :: Tag where "INTEGER = 0x02"
definition BOOLEAN :: Tag where "BOOLEAN = 0x01"
definition OCTET_STRING :: Tag where "OCTET_STRING = 0x04"
definition OBJECT_IDENTIFIER :: Tag where "OBJECT_IDENTIFIER = 0x06"
definition UTCTime :: Tag where "UTCTime = 0x17"

text \<open>\<^verbatim>\<open>Tag(0).Constructed().ContextSpecific()\<close>: the tag number 0 with the
  constructed bit \<open>0x20\<close> and the context-specific class bit \<open>0x80\<close>.\<close>

definition CONTEXT0 :: Tag where "CONTEXT0 = (0 OR 0x20) OR 0x80"

text \<open>\<^verbatim>\<open>read\<close> advances a String by \<open>n\<close> bytes and returns them with the advanced
  String; it fails when fewer than \<open>n\<close> bytes remain. (Every call in this program has
  \<open>n \<ge> 1\<close>.)\<close>

definition read :: "nat \<Rightarrow> String \<Rightarrow> (String \<times> String) option" where
  "read n s =
     (if length (bytes s) < n then None
      else Some (\<lparr>ptr = ptr s, bytes = take n (bytes s)\<rparr>,
                 \<lparr>ptr = ptr s + n, bytes = drop n (bytes s)\<rparr>))"

definition Skip :: "nat \<Rightarrow> String \<Rightarrow> String option" where
  "Skip n s = (case read n s of None \<Rightarrow> None | Some (v, s') \<Rightarrow> Some s')"

definition ReadBytes :: "nat \<Rightarrow> String \<Rightarrow> (String \<times> String) option" where
  "ReadBytes n s = (case read n s of None \<Rightarrow> None | Some (v, s') \<Rightarrow> Some (v, s'))"

definition Empty :: "String \<Rightarrow> bool" where
  "Empty s = (length (bytes s) = 0)"

text \<open>\<^verbatim>\<open>readUnsigned\<close> reads \<open>length\<close> bytes as a big-endian \<^verbatim>\<open>uint32\<close>:
  \<^verbatim>\<open>result <<= 8; result |= uint32(v[i])\<close>. The shift wraps at 32 bits; after it
  the low byte is zero, so the bitwise or is an addition.\<close>

definition readUnsigned :: "nat \<Rightarrow> String \<Rightarrow> (nat \<times> String) option" where
  "readUnsigned n s =
     (case read n s of
        None \<Rightarrow> None
      | Some (v, s') \<Rightarrow>
          Some (foldl (\<lambda>result b. (result * 256) mod 2 ^ 32 + unat b) 0 (bytes v), s'))"

text \<open>\<^verbatim>\<open>readASN1\<close> reads one element. \<open>length\<close> (here \<open>len\<close>) and \<open>headerLen\<close> are
  \<^verbatim>\<open>uint32\<close> in the source; they are natural numbers here, with the one addition
  that can wrap written modulo \<open>2 ^ 32\<close>. The conversion \<^verbatim>\<open>int(length)\<close> is to a
  64-bit \<^verbatim>\<open>int\<close> and is never negative. The result is the element (without its
  header when \<open>skipHeader\<close>), its tag, and the String advanced past the element.
  The source panics if skipping the header of the element just read fails; that branch
  is \<open>None\<close> here and \<open>readASN1_header_skip\<close> below shows it is never taken.\<close>

definition readASN1 :: "String \<Rightarrow> bool \<Rightarrow> (String \<times> Tag \<times> String) option" where
  "readASN1 s skipHeader =
     (case bytes s of
        tag # lenByte # _ \<Rightarrow>
          if tag AND 0x1f = 0x1f then None
          else
            (case
               (if lenByte AND 0x80 = 0 then Some (unat lenByte + 2, 2)
                else
                  let lenLen = unat (lenByte AND 0x7f) in
                  if lenLen = 0 \<or> lenLen > 4 \<or> length (bytes s) < 2 + lenLen then None
                  else
                    (case readUnsigned lenLen
                            \<lparr>ptr = ptr s + 2, bytes = take lenLen (drop 2 (bytes s))\<rparr> of
                       None \<Rightarrow> None
                     | Some (len32, _) \<Rightarrow>
                         if len32 < 128 then None
                         else if len32 div 2 ^ ((lenLen - 1) * 8) = 0 then None
                         else
                           let headerLen = 2 + lenLen in
                           if (headerLen + len32) mod 2 ^ 32 < len32 then None
                           else Some ((headerLen + len32) mod 2 ^ 32, headerLen)))
             of
               None \<Rightarrow> None
             | Some (len, headerLen) \<Rightarrow>
                 (case ReadBytes len s of
                    None \<Rightarrow> None
                  | Some (out, s') \<Rightarrow>
                      if skipHeader then
                        (case Skip headerLen out of
                           None \<Rightarrow> None
                         | Some out' \<Rightarrow> Some (out', tag, s'))
                      else Some (out, tag, s')))
      | _ \<Rightarrow> None)"

definition ReadAnyASN1 :: "String \<Rightarrow> (String \<times> Tag \<times> String) option" where
  "ReadAnyASN1 s = readASN1 s True"

definition ReadAnyASN1Element :: "String \<Rightarrow> (String \<times> Tag \<times> String) option" where
  "ReadAnyASN1Element s = readASN1 s False"

definition ReadASN1 :: "String \<Rightarrow> Tag \<Rightarrow> (String \<times> String) option" where
  "ReadASN1 s tag =
     (case ReadAnyASN1 s of
        None \<Rightarrow> None
      | Some (out, t, s') \<Rightarrow> if t \<noteq> tag then None else Some (out, s'))"

definition ReadASN1Element :: "String \<Rightarrow> Tag \<Rightarrow> (String \<times> String) option" where
  "ReadASN1Element s tag =
     (case ReadAnyASN1Element s of
        None \<Rightarrow> None
      | Some (out, t, s') \<Rightarrow> if t \<noteq> tag then None else Some (out, s'))"

definition PeekASN1Tag :: "String \<Rightarrow> Tag \<Rightarrow> bool" where
  "PeekASN1Tag s tag = (case bytes s of [] \<Rightarrow> False | b # _ \<Rightarrow> b = tag)"

definition SkipASN1 :: "String \<Rightarrow> Tag \<Rightarrow> String option" where
  "SkipASN1 s tag = (case ReadASN1 s tag of None \<Rightarrow> None | Some (unused, s') \<Rightarrow> Some s')"

text \<open>\<^verbatim>\<open>ReadOptionalASN1\<close> returns the element when present, whether it was present,
  and the String after it; when absent the String is unchanged.\<close>

definition ReadOptionalASN1 :: "String \<Rightarrow> Tag \<Rightarrow> (String option \<times> String) option" where
  "ReadOptionalASN1 s tag =
     (if PeekASN1Tag s tag then
        (case ReadASN1 s tag of None \<Rightarrow> None | Some (out, s') \<Rightarrow> Some (Some out, s'))
      else Some (None, s))"

definition SkipOptionalASN1 :: "String \<Rightarrow> Tag \<Rightarrow> String option" where
  "SkipOptionalASN1 s tag =
     (if \<not> PeekASN1Tag s tag then Some s
      else (case ReadASN1 s tag of None \<Rightarrow> None | Some (unused, s') \<Rightarrow> Some s'))"


subsection \<open>Object identifiers\<close>

text \<open>\<^verbatim>\<open>readBase128Int\<close>: the loop counter \<open>i\<close> and the accumulator \<open>ret\<close> are
  the arguments; the result is the decoded number and the bytes left. \<open>ret\<close> is below
  \<open>2 ^ 24\<close> before each shift, so the \<^verbatim>\<open>int\<close> never overflows, and the or with
  seven fresh low bits is an addition.\<close>

fun readBase128Int_loop :: "nat \<Rightarrow> nat \<Rightarrow> byte list \<Rightarrow> (nat \<times> byte list) option" where
  "readBase128Int_loop i ret [] = None"
| "readBase128Int_loop i ret (b # s) =
     (if i = 5 then None
      else if ret \<ge> 2 ^ (31 - 7) then None
      else
        let ret' = ret * 2 ^ 7 in
        if i = 0 \<and> b = 0x80 then None
        else
          let ret'' = ret' + unat (b AND 0x7f) in
          if b AND 0x80 = 0 then Some (ret'', s)
          else readBase128Int_loop (i + 1) ret'' s)"

definition readBase128Int :: "byte list \<Rightarrow> (nat \<times> byte list) option" where
  "readBase128Int s = readBase128Int_loop 0 0 s"

lemma readBase128Int_loop_shorter:
  "readBase128Int_loop i ret s = Some (v, s') \<Longrightarrow> length s' < length s"
  by (induction s arbitrary: i ret) (fastforce simp: Let_def split: if_splits)+

text \<open>The loop \<^verbatim>\<open>for ; len(bytes) > 0; i++\<close> of
  \<^verbatim>\<open>ReadASN1ObjectIdentifier\<close>, which stores one arc per round.\<close>

function readArcs :: "byte list \<Rightarrow> nat list option" where
  "readArcs s =
     (if length s > 0 then
        (case readBase128Int s of
           None \<Rightarrow> None
         | Some (v, s') \<Rightarrow>
             (case readArcs s' of None \<Rightarrow> None | Some vs \<Rightarrow> Some (v # vs)))
      else Some [])"
  by pat_completeness auto
termination
  by (relation "measure length")
     (auto simp: readBase128Int_def dest: readBase128Int_loop_shorter)

declare readArcs.simps [simp del]

definition ReadASN1ObjectIdentifier :: "String \<Rightarrow> (nat list \<times> String) option" where
  "ReadASN1ObjectIdentifier s =
     (case ReadASN1 s OBJECT_IDENTIFIER of
        None \<Rightarrow> None
      | Some (bs, s') \<Rightarrow>
          if length (bytes bs) = 0 then None
          else
            (case readBase128Int (bytes bs) of
               None \<Rightarrow> None
             | Some (v, rest) \<Rightarrow>
                 let components = (if v < 80 then [v div 40, v mod 40] else [2, v - 80]) in
                 (case readArcs rest of
                    None \<Rightarrow> None
                  | Some vs \<Rightarrow> Some (components @ vs, s'))))"

text \<open>What \<open>ReadASN1ObjectIdentifier\<close> makes of the contents of the element, once it
  has read it: the arcs, or \<open>None\<close> when the contents are rejected.\<close>

definition oid_arcs :: "byte list \<Rightarrow> nat list option" where
  "oid_arcs c =
     (if length c = 0 then None
      else
        (case readBase128Int c of
           None \<Rightarrow> None
         | Some (v, rest) \<Rightarrow>
             (case readArcs rest of
                None \<Rightarrow> None
              | Some vs \<Rightarrow> Some ((if v < 80 then [v div 40, v mod 40] else [2, v - 80]) @ vs))))"

subsection \<open>Integers\<close>

definition checkASN1Integer :: "byte list \<Rightarrow> bool" where
  "checkASN1Integer bs =
     (case bs of
        [] \<Rightarrow> False
      | [b] \<Rightarrow> True
      | b0 # b1 # _ \<Rightarrow>
          \<not> (b0 = 0 \<and> b1 AND 0x80 = 0 \<or> b0 = 0xff \<and> b1 AND 0x80 = 0x80))"

text \<open>\<^verbatim>\<open>big.Int.SetBytes\<close>: the bytes as a big-endian unsigned integer of any
  length.\<close>

definition SetBytes :: "byte list \<Rightarrow> int" where
  "SetBytes bs = foldl (\<lambda>a b. a * 256 + uint b) 0 bs"

text \<open>\<^verbatim>\<open>readASN1BigInt\<close>: a negative number is decoded by complementing every
  byte, adding one and negating. The empty case of the inner match is excluded by
  \<open>checkASN1Integer\<close>.\<close>

definition readASN1BigInt :: "String \<Rightarrow> (int \<times> String) option" where
  "readASN1BigInt s =
     (case ReadASN1 s INTEGER of
        None \<Rightarrow> None
      | Some (bs, s') \<Rightarrow>
          if \<not> checkASN1Integer (bytes bs) then None
          else
            (case bytes bs of
               [] \<Rightarrow> None
             | b0 # _ \<Rightarrow>
                 if b0 AND 0x80 = 0x80 then
                   Some (- (SetBytes (map (\<lambda>b. NOT b) (bytes bs)) + 1), s')
                 else Some (SetBytes (bytes bs), s')))"

text \<open>\<^verbatim>\<open>asn1Signed\<close> fills an \<^verbatim>\<open>int64\<close> byte by byte and sign-extends it by
  shifting up and (arithmetically) down.\<close>

definition asn1Signed :: "byte list \<Rightarrow> 64 word option" where
  "asn1Signed n =
     (if length n > 8 then None
      else
        let out = foldl (\<lambda>out b. push_bit 8 out OR ucast b) 0 n;
            sh = 64 - length n * 8
        in Some (signed_drop_bit sh (push_bit sh out)))"

definition readASN1Int64 :: "String \<Rightarrow> (64 word \<times> String) option" where
  "readASN1Int64 s =
     (case ReadASN1 s INTEGER of
        None \<Rightarrow> None
      | Some (bs, s') \<Rightarrow>
          if \<not> checkASN1Integer (bytes bs) then None
          else (case asn1Signed (bytes bs) of None \<Rightarrow> None | Some i \<Rightarrow> Some (i, s')))"

text \<open>\<^verbatim>\<open>reflect.Value.OverflowInt\<close> for a 32-bit destination:
  \<^verbatim>\<open>trunc := (x << 32) >> 32; return x != trunc\<close>.\<close>

definition OverflowInt32 :: "64 word \<Rightarrow> bool" where
  "OverflowInt32 x = (x \<noteq> signed_drop_bit 32 (push_bit 32 x))"

text \<open>\<^verbatim>\<open>ReadASN1Integer\<close> with an \<^verbatim>\<open>*int32\<close> destination; \<^verbatim>\<open>SetInt\<close>
  stores \<^verbatim>\<open>int32(i)\<close>.\<close>

definition ReadASN1Integer_int32 :: "String \<Rightarrow> (32 word \<times> String) option" where
  "ReadASN1Integer_int32 s =
     (case readASN1Int64 s of
        None \<Rightarrow> None
      | Some (i, s') \<Rightarrow> if OverflowInt32 i then None else Some (ucast i, s'))"

text \<open>\<^verbatim>\<open>ReadASN1Integer\<close> with a \<^verbatim>\<open>*big.Int\<close> destination.\<close>

definition ReadASN1Integer_big :: "String \<Rightarrow> (int \<times> String) option" where
  "ReadASN1Integer_big s = readASN1BigInt s"

subsection \<open>Time\<close>

text \<open>\<^verbatim>\<open>ReadASN1UTCTime\<close> reads an element with the UTCTime tag and hands its
  contents to Go's \<^verbatim>\<open>time.Parse\<close>, checks that the result prints back to the same
  text, and moves years from 2050 on back by a century. Everything after the element
  is read is the parameter \<open>parseTime\<close>: a function from the contents to a time, or
  \<open>None\<close> when they are rejected.\<close>

definition ReadASN1UTCTime :: "(byte list \<Rightarrow> 'time option) \<Rightarrow> String \<Rightarrow> ('time \<times> String) option" where
  "ReadASN1UTCTime parseTime s =
     (case ReadASN1 s UTCTime of
        None \<Rightarrow> None
      | Some (bs, s') \<Rightarrow>
          (case parseTime (bytes bs) of None \<Rightarrow> None | Some t \<Rightarrow> Some (t, s')))"

section \<open>A DER encoder, for stating what the decoder reads\<close>

text \<open>The repository has no encoder. To say what an input contains, the properties
  below build inputs with the minimal DER encoder that spec section 8 uses for its
  round-trip tests: \<open>tlv t c\<close> is the element with tag \<open>t\<close> and contents \<open>c\<close>, its
  length written in the shortest form (one byte below 128, otherwise \<open>0x80 + k\<close>
  followed by \<open>k\<close> big-endian bytes).\<close>

definition der_length :: "nat \<Rightarrow> byte list" where
  "der_length n =
     (if n < 128 then [of_nat n]
      else if n < 2 ^ 8 then [0x81, of_nat n]
      else if n < 2 ^ 16 then [0x82, of_nat (n div 2 ^ 8), of_nat n]
      else if n < 2 ^ 24 then [0x83, of_nat (n div 2 ^ 16), of_nat (n div 2 ^ 8), of_nat n]
      else [0x84, of_nat (n div 2 ^ 24), of_nat (n div 2 ^ 16), of_nat (n div 2 ^ 8), of_nat n])"

definition tlv :: "Tag \<Rightarrow> byte list \<Rightarrow> byte list" where
  "tlv t c = t # der_length (length c) @ c"

text \<open>The value of an INTEGER: its contents as a big-endian two's-complement number of
  any length (spec section 4.1). \<open>be_nat\<close> is the unsigned reading.\<close>

definition be_nat :: "byte list \<Rightarrow> nat" where
  "be_nat bs = foldl (\<lambda>a b. a * 256 + unat b) 0 bs"

definition der_integer_value :: "byte list \<Rightarrow> int" where
  "der_integer_value bs =
     (case bs of
        [] \<Rightarrow> 0
      | b # _ \<Rightarrow> if 128 \<le> unat b then int (be_nat bs) - 256 ^ length bs else int (be_nat bs))"

text \<open>Whether an integer fits the 32-bit signed target of the version field.\<close>

definition fits_int32 :: "int \<Rightarrow> bool" where
  "fits_int32 v = (- (2 ^ 31) \<le> v \<and> v < 2 ^ 31)"

text \<open>The contents of an OBJECT IDENTIFIER in DER (X.690, 8.19): one subidentifier for
  the first two arcs together, \<open>40 * first + second\<close>, then one for each later arc;
  each subidentifier in base 128, most significant digit first, in the fewest bytes,
  every byte but the last with its top bit set. \<open>base128_high\<close> gives the bytes before
  the last one. \<open>oid_ok\<close> says that the arcs name an object identifier: at least two
  arcs, the first at most 2, and the second below 40 unless the first is 2.\<close>

fun base128_high :: "nat \<Rightarrow> byte list" where
  "base128_high m =
     (if m = 0 then [] else base128_high (m div 128) @ [word_of_nat (m mod 128 + 128)])"

declare base128_high.simps [simp del]

definition base128 :: "nat \<Rightarrow> byte list" where
  "base128 n = base128_high (n div 128) @ [word_of_nat (n mod 128)]"

definition subidentifiers :: "nat list \<Rightarrow> nat list" where
  "subidentifiers arcs = (case arcs of a # b # rest \<Rightarrow> (40 * a + b) # rest | _ \<Rightarrow> [])"

definition oid_der :: "nat list \<Rightarrow> byte list" where
  "oid_der arcs = concat (map base128 (subidentifiers arcs))"

definition oid_ok :: "nat list \<Rightarrow> bool" where
  "oid_ok arcs = (case arcs of a # b # rest \<Rightarrow> a \<le> 2 \<and> (a < 2 \<longrightarrow> b < 40) | _ \<Rightarrow> False)"
section \<open>Facts about the cursor\<close>

subsection \<open>Bytes\<close>

lemma byte_and7f: "unat ((w :: byte) AND 0x7f) = unat w mod 128"
proof -
  have "(0x7f :: byte) = mask 7" by (simp add: mask_eq_exp_minus_1)
  then have "w AND 0x7f = take_bit 7 w" by (simp add: take_bit_eq_mask)
  then show ?thesis by (simp add: unsigned_take_bit_eq take_bit_eq_mod unat_mod)
qed

lemma byte_bit7: "bit (w :: byte) 7 \<longleftrightarrow> 128 \<le> unat w"
proof -
  have "bit w 7 \<longleftrightarrow> bit (unat w) 7" by (simp add: bit_unsigned_iff)
  also have "\<dots> \<longleftrightarrow> odd (unat w div 128)" by (simp add: bit_iff_odd)
  also have "\<dots> \<longleftrightarrow> 128 \<le> unat w"
  proof (cases "128 \<le> unat w")
    case True
    have "unat w < 256" using unsigned_less[of w] by simp
    with True have "unat w div 128 = 1" by simp
    with True show ?thesis by simp
  next
    case False
    then show ?thesis by simp
  qed
  finally show ?thesis .
qed

lemma byte_and80: "((w :: byte) AND 0x80 = 0) = (unat w < 128)"
proof -
  have "(0x80 :: byte) = 2 ^ 7" by simp
  then have "(w AND 0x80 = 0) = (\<not> bit w 7)"
    by (simp only: and_exp_eq_0_iff_not_bit)
  then show ?thesis by (simp add: byte_bit7 not_le)
qed

lemma word_and_exp: "(w :: 'a::len word) AND 2 ^ p = (if bit w p then 2 ^ p else 0)"
  by (rule bit_eqI) (auto simp: bit_and_iff bit_exp_iff)

lemma byte_and80': "((w :: byte) AND 0x80 = 0x80) = (128 \<le> unat w)"
  using word_and_exp[of w 7] by (simp add: byte_bit7)

lemma byte_not: "uint (NOT (w :: byte)) = 255 - uint w"
proof -
  have "NOT w = 255 - w" by (simp add: not_eq_complement)
  moreover have "uint (255 - w) = 255 - uint w"
    using uint_lt2p[of w] uint_ge_0[of w] by (simp add: uint_sub_if' )
  ultimately show ?thesis by simp
qed


subsection \<open>The header of an element\<close>

text \<open>\<open>asn1_header\<close> collects what \<open>readASN1\<close> computes before it takes any
  sub-slice: the tag, the length of the header and the length of the whole element.
  It is a device of the proofs; \<open>readASN1_header\<close> shows that \<open>readASN1\<close> is the
  header computation followed by one bounds check and the slicing.\<close>

definition asn1_header :: "byte list \<Rightarrow> (Tag \<times> nat \<times> nat) option" where
  "asn1_header bs =
     (case bs of
        tag # lenByte # _ \<Rightarrow>
          if tag AND 0x1f = 0x1f then None
          else if lenByte AND 0x80 = 0 then Some (tag, 2, unat lenByte + 2)
          else
            let lenLen = unat (lenByte AND 0x7f) in
            if lenLen = 0 \<or> lenLen > 4 \<or> length bs < 2 + lenLen then None
            else
              let len32 = foldl (\<lambda>result b. (result * 256) mod 2 ^ 32 + unat b) 0
                            (take lenLen (drop 2 bs)) in
              if len32 < 128 then None
              else if len32 div 2 ^ ((lenLen - 1) * 8) = 0 then None
              else if (2 + lenLen + len32) mod 2 ^ 32 < len32 then None
              else Some (tag, 2 + lenLen, (2 + lenLen + len32) mod 2 ^ 32)
      | _ \<Rightarrow> None)"

lemma asn1_header_bounds:
  assumes "asn1_header bs = Some (t, hl, n)"
  shows "2 \<le> hl" "hl \<le> n" "hl \<le> 6" "hl \<le> length bs"
  using assms
  by (auto simp: asn1_header_def Let_def split: list.splits if_splits)

definition element :: "String \<Rightarrow> bool \<Rightarrow> nat \<Rightarrow> nat \<Rightarrow> String" where
  "element s sk hl n =
     (if sk then \<lparr>ptr = ptr s + hl, bytes = drop hl (take n (bytes s))\<rparr>
      else \<lparr>ptr = ptr s, bytes = take n (bytes s)\<rparr>)"

lemma read_tail_aux:
  assumes "2 \<le> hl" "hl \<le> n"
  shows "(case ReadBytes n s of
            None \<Rightarrow> None
          | Some (out, s') \<Rightarrow>
              if sk then
                (case Skip hl out of
                   None \<Rightarrow> None
                 | Some out' \<Rightarrow> Some (out', t, s'))
              else Some (out, t, s')) =
         (if length (bytes s) < n then None
          else Some (element s sk hl n, t, \<lparr>ptr = ptr s + n, bytes = drop n (bytes s)\<rparr>))"
  using assms by (simp add: ReadBytes_def Skip_def read_def element_def)


lemma asn1_header_Cons2:
  "asn1_header (tag # lenByte # rest) =
     (if tag AND 0x1f = 0x1f then None
      else if lenByte AND 0x80 = 0 then Some (tag, 2, unat lenByte + 2)
      else
        let lenLen = unat (lenByte AND 0x7f) in
        if lenLen = 0 \<or> lenLen > 4 \<or> length rest < lenLen then None
        else
          let len32 = foldl (\<lambda>result b. (result * 256) mod 2 ^ 32 + unat b) 0
                        (take lenLen rest) in
          if len32 < 128 then None
          else if len32 div 2 ^ ((lenLen - 1) * 8) = 0 then None
          else if (2 + lenLen + len32) mod 2 ^ 32 < len32 then None
          else Some (tag, 2 + lenLen, (2 + lenLen + len32) mod 2 ^ 32))"
  by (simp add: asn1_header_def Let_def)

lemma asn1_header_short: "length bs < 2 \<Longrightarrow> asn1_header bs = None"
  by (cases bs; cases "tl bs") (auto simp: asn1_header_def)

lemma readASN1_short: "length (bytes s) < 2 \<Longrightarrow> readASN1 s sk = None"
  by (cases "bytes s"; cases "tl (bytes s)") (auto simp: readASN1_def)

lemma readASN1_header:
  "readASN1 s sk =
     (case asn1_header (bytes s) of
        None \<Rightarrow> None
      | Some (t, hl, n) \<Rightarrow>
          if length (bytes s) < n then None
          else Some (element s sk hl n, t, \<lparr>ptr = ptr s + n, bytes = drop n (bytes s)\<rparr>))"
proof (cases "length (bytes s) < 2")
  case True
  then show ?thesis by (simp add: asn1_header_short readASN1_short)
next
  case False
  then obtain tag lenByte rest where bs: "bytes s = tag # lenByte # rest"
    by (cases "bytes s"; cases "tl (bytes s)") auto
  show ?thesis
  proof (cases "tag AND 0x1f = 0x1f")
    case True
    then show ?thesis by (simp add: readASN1_def bs asn1_header_Cons2)
  next
    case t: False
    show ?thesis
    proof (cases "lenByte AND 0x80 = 0")
      case True
      with t show ?thesis
        using read_tail_aux[where hl=2 and n="unat lenByte + 2" and s=s and sk=sk and t=tag] 
        by (simp add: readASN1_def bs asn1_header_Cons2)
    next
      case False
      define lenLen where "lenLen = unat (lenByte AND 0x7f)"
      define len32 where "len32 = foldl (\<lambda>result b. (result * 256) mod 2 ^ 32 + unat b) 0
                            (take lenLen rest)"
      show ?thesis
      proof (cases "lenLen = 0 \<or> lenLen > 4 \<or> length rest < lenLen")
        case True
        with t False show ?thesis
          by (simp add: readASN1_def bs asn1_header_Cons2 Let_def flip: lenLen_def)
      next
        case g: False
        have ru: "readUnsigned lenLen \<lparr>ptr = p, bytes = take lenLen rest\<rparr>
            = Some (len32, \<lparr>ptr = p + lenLen, bytes = []\<rparr>)" for p
          using g by (simp add: readUnsigned_def read_def len32_def)
        have L: "readASN1 s sk =
            (if len32 < 128 then None
             else if len32 div 2 ^ ((lenLen - 1) * 8) = 0 then None
             else if (2 + lenLen + len32) mod 2 ^ 32 < len32 then None
             else (case ReadBytes ((2 + lenLen + len32) mod 2 ^ 32) s of
                    None \<Rightarrow> None
                  | Some (out, s') \<Rightarrow>
                      if sk then
                        (case Skip (2 + lenLen) out of
                           None \<Rightarrow> None
                         | Some out' \<Rightarrow> Some (out', tag, s'))
                      else Some (out, tag, s')))"
          using t False g
          by (simp add: readASN1_def bs Let_def ru flip: lenLen_def cong: option.case_cong if_cong)
        have R: "asn1_header (bytes s) =
           (if len32 < 128 then None
            else if len32 div 2 ^ ((lenLen - 1) * 8) = 0 then None
            else if (2 + lenLen + len32) mod 2 ^ 32 < len32 then None
            else Some (tag, 2 + lenLen, (2 + lenLen + len32) mod 2 ^ 32))"
          using t False g
          by (simp add: bs asn1_header_Cons2 Let_def len32_def flip: lenLen_def)
        show ?thesis
        proof (cases "len32 < 128 \<or> len32 div 2 ^ ((lenLen - 1) * 8) = 0
                      \<or> (2 + lenLen + len32) mod 2 ^ 32 < len32")
          case True
          then show ?thesis unfolding L R by auto
        next
          case c: False
          have le: "2 + lenLen \<le> (2 + lenLen + len32) mod 2 ^ 32"
            using c g by linarith
          have "2 \<le> 2 + lenLen" by simp
          from read_tail_aux[OF this le, where s=s and sk=sk and t=tag] c show ?thesis
            unfolding L R by simp
        qed
      qed
    qed
  qed
qed



subsection \<open>The header of an encoded element\<close>

lemma length_tlv: "length (tlv t c) = 1 + length (der_length (length c)) + length c"
  by (simp add: tlv_def)

lemma d16: "(n::nat) div 65536 = n div 256 div 256"
  using div_mult2_eq[of n 256 256] by simp

lemma d24: "(n::nat) div 16777216 = n div 256 div 256 div 256"
  using div_mult2_eq[of n 65536 256] by (simp add: d16)

lemma e3: "65536 * (n div 65536) + n div 256 mod 256 * 256 + n mod 256 = (n::nat)"
proof -
  have 1: "n = 256 * (n div 256) + n mod 256" by simp
  have 2: "n div 256 = 256 * (n div 256 div 256) + n div 256 mod 256" by simp
  show ?thesis unfolding d16 using 1 2 by linarith
qed

lemma e4: "16777216 * (n div 16777216) + n div 65536 mod 256 * 65536 + n div 256 mod 256 * 256 + n mod 256 = (n::nat)"
proof -
  have 1: "n = 256 * (n div 256) + n mod 256" by simp
  have 2: "n div 256 = 256 * (n div 256 div 256) + n div 256 mod 256" by simp
  have 3: "n div 256 div 256 = 256 * (n div 256 div 256 div 256) + n div 256 div 256 mod 256" by simp
  show ?thesis unfolding d16 d24 using 1 2 3 by linarith
qed

lemma e5:
  assumes "n < 4294967296"
  shows "(16777216 * (n div 16777216) + 65536 * (n div 65536 mod 256) + n div 256 mod 256 * 256)
           mod 4294967296 + n mod 256 = (n::nat)"
proof -
  have "16777216 * (n div 16777216) + 65536 * (n div 65536 mod 256) + n div 256 mod 256 * 256
          + n mod 256 = n"
    using e4[of n] by (simp add: algebra_simps)
  moreover from this assms
  have "16777216 * (n div 16777216) + 65536 * (n div 65536 mod 256) + n div 256 mod 256 * 256
          < 4294967296" by linarith
  ultimately show ?thesis by simp
qed

lemma header_tlv:
  assumes "t AND 0x1f \<noteq> 0x1f" "length (tlv t c) < 2 ^ 32"
  shows "asn1_header (tlv t c @ rest) = Some (t, 1 + length (der_length (length c)), length (tlv t c))"
proof -
  define n where "n = length c"
  have lt: "1 + length (der_length n) + n < 2 ^ 32"
    using assms(2) by (simp add: length_tlv n_def)
  consider "n < 128" | "128 \<le> n" "n < 2 ^ 8" | "2 ^ 8 \<le> n" "n < 2 ^ 16" | "2 ^ 16 \<le> n" "n < 2 ^ 24"
    | "2 ^ 24 \<le> n" 
    by fastforce
  then show ?thesis
  proof cases
    case 1
    then show ?thesis using assms(1)
      by (simp add: tlv_def der_length_def asn1_header_Cons2 byte_and80 unat_of_nat flip: n_def)
  next
    case 2
    then show ?thesis  using assms(1)
      by (simp add: tlv_def der_length_def asn1_header_Cons2 byte_and80 byte_and7f unat_of_nat flip: n_def)
  next
    case 3
    then show ?thesis  using assms(1)
      by (simp add: tlv_def der_length_def asn1_header_Cons2 byte_and80 byte_and7f unat_of_nat flip: n_def)
  next
    case 4
    from 4 show ?thesis  using assms(1)
      by (simp add: tlv_def der_length_def asn1_header_Cons2 byte_and80 byte_and7f unat_of_nat e3 flip: n_def)
  next
    case 5
    from lt have "n < 4294967296" by simp
    note e = e5[OF this]
    from 5 show ?thesis  using assms(1) lt
      by (simp add: tlv_def der_length_def asn1_header_Cons2 byte_and80 byte_and7f unat_of_nat e flip: n_def)
  qed
qed


subsection \<open>Every successful read consumes at least two bytes\<close>

lemma readASN1_shorter:
  assumes "readASN1 s skipHeader = Some (out, t, s')"
  shows "length (bytes s') < length (bytes s)"
proof -
  from assms obtain hl n where h: "asn1_header (bytes s) = Some (t, hl, n)"
    and n: "n \<le> length (bytes s)" and s': "s' = \<lparr>ptr = ptr s + n, bytes = drop n (bytes s)\<rparr>"
    by (auto simp: readASN1_header split: option.splits if_splits)
  from asn1_header_bounds[OF h] n show ?thesis by (simp add: s')
qed

lemma ReadASN1_shorter:
  "ReadASN1 s tag = Some (out, s') \<Longrightarrow> length (bytes s') < length (bytes s)"
  by (auto simp: ReadASN1_def ReadAnyASN1_def split: option.splits if_splits
      dest: readASN1_shorter)

lemma ReadASN1Element_shorter:
  "ReadASN1Element s tag = Some (out, s') \<Longrightarrow> length (bytes s') < length (bytes s)"
  by (auto simp: ReadASN1Element_def ReadAnyASN1Element_def split: option.splits if_splits
      dest: readASN1_shorter)

lemma ReadASN1Integer_int32_shorter:
  "ReadASN1Integer_int32 s = Some (i, s') \<Longrightarrow> length (bytes s') < length (bytes s)"
  by (auto simp: ReadASN1Integer_int32_def readASN1Int64_def
      split: option.splits if_splits dest: ReadASN1_shorter)

subsection \<open>Reading an encoded element\<close>

definition hdr :: "byte list \<Rightarrow> nat" where
  "hdr c = 1 + length (der_length (length c))"

lemma length_tlv_hdr: "length (tlv t c) = hdr c + length c"
  by (simp add: hdr_def length_tlv)

lemma hdr_bounds: "2 \<le> hdr c" "hdr c \<le> 6"
  by (simp_all add: hdr_def der_length_def)

definition lowtag :: "Tag \<Rightarrow> bool" where
  "lowtag t = (t AND 0x1f \<noteq> 0x1f)"

lemma lowtag_consts [simp]:
  "lowtag SEQUENCE" "lowtag SET" "lowtag INTEGER" "lowtag BOOLEAN" "lowtag OCTET_STRING"
  "lowtag OBJECT_IDENTIFIER" "lowtag UTCTime" "lowtag CONTEXT0"
  by (simp_all add: lowtag_def SEQUENCE_def SET_def INTEGER_def BOOLEAN_def OCTET_STRING_def
      OBJECT_IDENTIFIER_def UTCTime_def CONTEXT0_def)

lemma readASN1_tlv:
  assumes "lowtag t" "hdr c + length c < 2 ^ 32"
  shows "readASN1 \<lparr>ptr = p, bytes = tlv t c @ rest\<rparr> sk =
           Some (if sk then \<lparr>ptr = p + hdr c, bytes = c\<rparr> else \<lparr>ptr = p, bytes = tlv t c\<rparr>,
                 t, \<lparr>ptr = p + (hdr c + length c), bytes = rest\<rparr>)"
proof -
  have h: "asn1_header (tlv t c @ rest) = Some (t, hdr c, hdr c + length c)"
    using header_tlv[of t c rest] assms by (simp add: lowtag_def length_tlv_hdr hdr_def)
  have d: "drop (hdr c) (tlv t c) = c"
    by (simp add: tlv_def hdr_def)
  show ?thesis
    by (simp add: readASN1_header h element_def length_tlv_hdr d)
qed

lemma ReadASN1_tlv:
  assumes "lowtag t" "hdr c + length c < 2 ^ 32"
  shows "ReadASN1 \<lparr>ptr = p, bytes = tlv t c @ rest\<rparr> t' =
           (if t \<noteq> t' then None
            else Some (\<lparr>ptr = p + hdr c, bytes = c\<rparr>, \<lparr>ptr = p + (hdr c + length c), bytes = rest\<rparr>))"
  by (simp add: ReadASN1_def ReadAnyASN1_def readASN1_tlv[OF assms])

lemma ReadASN1Element_tlv:
  assumes "lowtag t" "hdr c + length c < 2 ^ 32"
  shows "ReadASN1Element \<lparr>ptr = p, bytes = tlv t c @ rest\<rparr> t' =
           (if t \<noteq> t' then None
            else Some (\<lparr>ptr = p, bytes = tlv t c\<rparr>, \<lparr>ptr = p + (hdr c + length c), bytes = rest\<rparr>))"
  by (simp add: ReadASN1Element_def ReadAnyASN1Element_def readASN1_tlv[OF assms])

lemma SkipASN1_tlv:
  assumes "lowtag t" "hdr c + length c < 2 ^ 32"
  shows "SkipASN1 \<lparr>ptr = p, bytes = tlv t c @ rest\<rparr> t' =
           (if t \<noteq> t' then None
            else Some \<lparr>ptr = p + (hdr c + length c), bytes = rest\<rparr>)"
  by (simp add: SkipASN1_def ReadASN1_tlv[OF assms])

lemma PeekASN1Tag_tlv: "PeekASN1Tag \<lparr>ptr = p, bytes = tlv t c @ rest\<rparr> t' = (t = t')"
  by (simp add: PeekASN1Tag_def tlv_def)

lemmas tlv_last =
  readASN1_tlv[where rest="[]", unfolded append_Nil2]
  ReadASN1_tlv[where rest="[]", unfolded append_Nil2]
  ReadASN1Element_tlv[where rest="[]", unfolded append_Nil2]
  SkipASN1_tlv[where rest="[]", unfolded append_Nil2]
  PeekASN1Tag_tlv[where rest="[]", unfolded append_Nil2]

lemmas tag_defs = SEQUENCE_def SET_def INTEGER_def BOOLEAN_def OCTET_STRING_def
      OBJECT_IDENTIFIER_def UTCTime_def CONTEXT0_def

lemma ReadASN1ObjectIdentifier_arcs:
  "ReadASN1ObjectIdentifier s =
     (case ReadASN1 s OBJECT_IDENTIFIER of
        None \<Rightarrow> None
      | Some (bs, s') \<Rightarrow> (case oid_arcs (bytes bs) of None \<Rightarrow> None | Some a \<Rightarrow> Some (a, s')))"
  by (simp add: ReadASN1ObjectIdentifier_def oid_arcs_def Let_def split: option.splits)

lemma ReadASN1ObjectIdentifier_tlv:
  assumes "hdr c + length c < 2 ^ 32"
  shows "ReadASN1ObjectIdentifier \<lparr>ptr = p, bytes = tlv OBJECT_IDENTIFIER c @ rest\<rparr> =
           (case oid_arcs c of None \<Rightarrow> None
            | Some a \<Rightarrow> Some (a, \<lparr>ptr = p + (hdr c + length c), bytes = rest\<rparr>))"
  by (simp add: ReadASN1ObjectIdentifier_arcs ReadASN1_tlv[OF _ assms])

subsection \<open>Integers\<close>

lemma step64: "push_bit 8 (w :: 64 word) OR ucast (b :: byte) = w * 256 + of_nat (unat b)"
proof -
  have "push_bit 8 w OR ucast b = push_bit 8 w + ucast b"
    by (rule disjunctive_add[symmetric]) (auto simp: bit_simps dest: bit_imp_le_length)
  then show ?thesis by (simp add: push_bit_eq_mult)
qed

lemma foldl_be_nat: "foldl (\<lambda>a b. a * 256 + unat b) a bs = a * 256 ^ length bs + be_nat bs"
proof (induction bs arbitrary: a)
  case Nil
  then show ?case by (simp add: be_nat_def)
next
  case (Cons b bs)
  have 1: "foldl (\<lambda>a b. a * 256 + unat b) a (b # bs)
            = (a * 256 + unat b) * 256 ^ length bs + be_nat bs"
    by (simp add: Cons.IH)
  have 2: "be_nat (b # bs) = unat b * 256 ^ length bs + be_nat bs"
    using Cons.IH[of "unat b"] by (simp add: be_nat_def)
  show ?case unfolding 1 2 by (simp add: algebra_simps)
qed

lemma be_nat_Cons: "be_nat (b # bs) = unat b * 256 ^ length bs + be_nat bs"
  using foldl_be_nat[of "unat b" bs] by (simp add: be_nat_def)

lemma be_nat_less: "be_nat bs < 256 ^ length bs"
proof (induction bs)
  case Nil
  then show ?case by (simp add: be_nat_def)
next
  case (Cons b bs)
  have "unat b < 2 ^ LENGTH(8)" by (rule unsigned_less)
  then have "unat b < 256" by simp
  then have "unat b \<le> 255" by simp
  then have "unat b * 256 ^ length bs \<le> 255 * 256 ^ length bs"
    by (rule mult_le_mono1)
  with Cons.IH have "unat b * 256 ^ length bs + be_nat bs
      < 255 * 256 ^ length bs + 256 ^ length bs" by linarith
  then show ?case by (simp add: be_nat_Cons)
qed

lemma foldl_word64:
  "foldl (\<lambda>out b. push_bit 8 out OR ucast b) (of_nat a :: 64 word) (bs :: byte list)
     = of_nat (a * 256 ^ length bs + be_nat bs)"
proof (induction bs arbitrary: a)
  case Nil
  then show ?case by (simp add: be_nat_def)
next
  case (Cons b bs)
  have "push_bit 8 (of_nat a :: 64 word) OR ucast b = of_nat (a * 256 + unat b)"
    by (simp add: step64)
  then have "foldl (\<lambda>out b. push_bit 8 out OR ucast b) (of_nat a :: 64 word) (b # bs)
      = of_nat ((a * 256 + unat b) * 256 ^ length bs + be_nat bs)"
    by (simp only: foldl_Cons Cons.IH)
  also have "(a * 256 + unat b) * 256 ^ length bs + be_nat bs
      = a * 256 ^ length (b # bs) + be_nat (b # bs)"
    by (simp add: be_nat_Cons algebra_simps)
  finally show ?case .
qed

lemma signed_take_bit_63:
  assumes "0 \<le> x" "x < 2 ^ 64"
  shows "signed_take_bit 63 (x :: int) = (if x < 2 ^ 63 then x else x - 2 ^ 64)"
proof (cases "x < 2 ^ 63")
  case True
  with assms show ?thesis by (simp add: signed_take_bit_int_eq_self)
next
  case False
  have "signed_take_bit 63 x = take_bit (Suc 63) (x + 2 ^ 63) - 2 ^ 63"
    by (rule signed_take_bit_eq_take_bit_shift)
  also have "take_bit (Suc 63) (x + 2 ^ 63) = (x + 2 ^ 63) mod 2 ^ 64"
    by (simp add: take_bit_eq_mod)
  also have "(x + 2 ^ 63) mod 2 ^ 64 = (x + 2 ^ 63 - 2 ^ 64) mod 2 ^ 64"
    by (metis mod_diff_right_eq mod_self diff_zero)
  also have "\<dots> = x + 2 ^ 63 - 2 ^ 64"
    using False assms by (intro mod_pos_pos_trivial) simp_all
  finally show ?thesis using False by simp
qed

lemma sint_sign_extend:
  fixes u :: nat and k :: nat
  assumes k: "0 < k" "k \<le> 64" and u: "u < 2 ^ k"
  shows "sint (signed_drop_bit (64 - k) (push_bit (64 - k) (of_nat u :: 64 word)))
           = (if 2 ^ (k - 1) \<le> u then int u - 2 ^ k else int u)"
proof -
  define sh where "sh = 64 - k"
  have ksh: "k + sh = 64" using k by (simp add: sh_def)
  define x :: int where "x = int u * 2 ^ sh"
  have p64: "(2::int) ^ 64 = 2 ^ k * 2 ^ sh"
    by (simp add: ksh flip: power_add)
  have p63: "(2::int) ^ 63 = 2 ^ (k - 1) * 2 ^ sh"
    using k ksh by (simp flip: power_add)
  have x0: "0 \<le> x" by (simp add: x_def)
  have "int u < 2 ^ k" using u by simp
  then have x64: "x < 2 ^ 64" unfolding x_def p64 by simp
  have xlt: "x < 2 ^ 63 \<longleftrightarrow> u < 2 ^ (k - 1)"
    unfolding x_def p63 by simp
  have w: "push_bit sh (of_nat u :: 64 word) = word_of_int x"
    by (simp add: x_def push_bit_eq_mult)
  have r: "sint (signed_drop_bit sh (push_bit sh (of_nat u :: 64 word)))
          = (if x < 2 ^ 63 then x else x - 2 ^ 64) div 2 ^ sh"
  proof -
    have "sint (signed_drop_bit sh (word_of_int x :: 64 word)) = drop_bit sh (signed_take_bit 63 x)"
      by (simp add: sint_signed_drop_bit_eq sint_sbintrunc')
    then show ?thesis
      by (simp only: w signed_take_bit_63[OF x0 x64] drop_bit_eq_div)
  qed
  have d1: "x div 2 ^ sh = int u" by (simp add: x_def)
  have "x - 2 ^ 64 = (int u - 2 ^ k) * 2 ^ sh"
    unfolding x_def p64 by (simp add: algebra_simps)
  then have d2: "(x - 2 ^ 64) div 2 ^ sh = int u - 2 ^ k" by simp
  show ?thesis
  proof (cases "x < 2 ^ 63")
    case True
    then have "\<not> 2 ^ (k - 1) \<le> u" using xlt by simp
    with True show ?thesis using r d1 by (simp only: sh_def if_True if_False)
  next
    case False
    then have "2 ^ (k - 1) \<le> u" using xlt by simp
    with False show ?thesis using r d2 by (simp only: sh_def if_True if_False)
  qed
qed

lemma signed_take_bit_push_32:
  "signed_take_bit 63 (push_bit 32 (y :: int)) = push_bit 32 (signed_take_bit 31 y)"
  by (rule bit_eqI) (auto simp: bit_simps min_def)

lemma o2: "drop_bit 32 (signed_take_bit 63 (push_bit 32 (y::int))) = signed_take_bit 31 y"
  unfolding signed_take_bit_push_32 by (simp add: push_bit_eq_mult drop_bit_eq_div)

lemma o3: "x = y \<longleftrightarrow> sint x = sint y" for x :: "64 word"
  by (auto intro: signed_word_eqI)

lemma OverflowInt32_iff:
  "(x \<noteq> signed_drop_bit 32 (push_bit 32 x)) \<longleftrightarrow> \<not> (- (2 ^ 31) \<le> sint x \<and> sint x < 2 ^ 31)"
  for x :: "64 word"
proof -
  have "sint (signed_drop_bit 32 (push_bit 32 x)) = drop_bit 32 (signed_take_bit 63 (push_bit 32 (sint x)))"
    by (simp only: sint_signed_drop_bit_eq signed_push_bit_eq) simp
  also have "\<dots> = signed_take_bit 31 (sint x)"
    by (rule o2)
  finally have s: "sint (signed_drop_bit 32 (push_bit 32 x)) = signed_take_bit 31 (sint x)" .
  have "x = signed_drop_bit 32 (push_bit 32 x) \<longleftrightarrow> sint x = sint (signed_drop_bit 32 (push_bit 32 x))"
    by (rule o3)
  also have "\<dots> \<longleftrightarrow> signed_take_bit 31 (sint x) = sint x"
    unfolding s by auto
  also have "\<dots> \<longleftrightarrow> - (2 ^ 31) \<le> sint x \<and> sint x < 2 ^ 31"
    by (rule signed_take_bit_int_eq_self_iff)
  finally show ?thesis by blast
qed

lemma sint_ucast_32:
  fixes x :: "64 word"
  assumes "- (2 ^ 31) \<le> sint x" "sint x < 2 ^ 31"
  shows "sint (ucast x :: 32 word) = sint x"
proof -
  have "sint (ucast x :: 32 word) = signed_take_bit 31 (take_bit 32 (uint x))"
    by (simp add: sint_uint unsigned_ucast_eq)
  also have "\<dots> = signed_take_bit 31 (uint x)"
    by (simp add: signed_take_bit_take_bit)
  also have "\<dots> = signed_take_bit 31 (sint x)"
    by (rule bit_eqI) (auto simp: bit_signed_take_bit_iff bit_uint_iff bit_sint_iff min_def)
  also have "\<dots> = sint x"
    using assms by (simp add: signed_take_bit_int_eq_self)
  finally show ?thesis .
qed


lemma byte_not_unat: "unat (NOT (w :: byte)) = 255 - unat w"
proof -
  have "unat w < 2 ^ LENGTH(8)" by (rule unsigned_less)
  then have le: "unat w \<le> 255" by simp
  have "int (unat (NOT w)) = uint (NOT w)" by simp
  also have "\<dots> = 255 - uint w" by (rule byte_not)
  also have "\<dots> = 255 - int (unat w)" by simp
  also have "\<dots> = int (255 - unat w)"
    using le by (simp only: of_nat_diff of_nat_numeral)
  finally show ?thesis by (simp only: of_nat_eq_iff)
qed

lemma be_nat_map_NOT: "be_nat (map (\<lambda>b. NOT b) bs) + be_nat bs + 1 = 256 ^ length bs"
proof (induction bs)
  case Nil
  then show ?case by (simp add: be_nat_def)
next
  case (Cons b bs)
  have "unat b < 2 ^ LENGTH(8)" by (rule unsigned_less)
  then have "unat b \<le> 255" by simp
  then have "(255 - unat b) * 256 ^ length bs + unat b * 256 ^ length bs = 255 * 256 ^ length bs"
    by (simp flip: add_mult_distrib)
  with Cons show ?case
    by (simp add: be_nat_Cons byte_not_unat)
qed

lemma SetBytes_be_nat: "SetBytes bs = int (be_nat bs)"
proof -
  have "foldl (\<lambda>a b. a * 256 + uint b) (int a) bs = int (foldl (\<lambda>a b. a * 256 + unat b) a bs)" for a
  proof (induction bs arbitrary: a)
    case Nil
    then show ?case by simp
  next
    case (Cons b bs)
    have "int a * 256 + uint b = int (a * 256 + unat b)" by simp
    then show ?case by (simp only: foldl_Cons Cons.IH)
  qed
  from this[of 0] show ?thesis by (simp add: SetBytes_def be_nat_def)
qed

lemma checkASN1Integer_nonempty: "checkASN1Integer bs \<Longrightarrow> bs \<noteq> []"
  by (auto simp: checkASN1Integer_def)

lemma der_integer_value_Cons:
  "der_integer_value (b # bs) =
     (if 128 \<le> unat b then int (be_nat (b # bs)) - 256 ^ length (b # bs) else int (be_nat (b # bs)))"
  by (simp add: der_integer_value_def)

lemma bigint_value:
  "(if b0 AND 0x80 = 0x80 then - (SetBytes (map (\<lambda>b. NOT b) (b0 # rest)) + 1)
    else SetBytes (b0 # rest)) = der_integer_value (b0 # rest)"
proof -
  define bs where "bs = b0 # rest"
  have "int (be_nat (map (\<lambda>b. NOT b) bs) + be_nat bs + 1) = int (256 ^ length bs)"
    by (simp only: be_nat_map_NOT)
  then have e: "int (be_nat (map (\<lambda>b. NOT b) bs)) + int (be_nat bs) + 1 = 256 ^ length bs"
    by simp
  have v: "der_integer_value bs =
      (if 128 \<le> unat b0 then int (be_nat bs) - 256 ^ length bs else int (be_nat bs))"
    unfolding bs_def by (rule der_integer_value_Cons)
  have "(if b0 AND 0x80 = 0x80 then - (SetBytes (map (\<lambda>b. NOT b) bs) + 1) else SetBytes bs)
          = der_integer_value bs"
  proof (cases "128 \<le> unat b0")
    case True
    then have "b0 AND 0x80 = 0x80" by (simp add: byte_and80')
    then show ?thesis
      using True e by (simp add: v SetBytes_be_nat)
  next
    case False
    then have "b0 AND 0x80 \<noteq> 0x80" by (simp add: byte_and80')
    then show ?thesis
      using False by (simp add: v SetBytes_be_nat)
  qed
  then show ?thesis unfolding bs_def .
qed


lemma be_nat_sign:
  "2 ^ (8 * length (b # rest) - 1) \<le> be_nat (b # rest) \<longleftrightarrow> 128 \<le> unat b"
proof -
  define X :: nat where "X = 256 ^ length rest"
  have p: "(2::nat) ^ (8 * length (b # rest) - 1) = 128 * X"
  proof -
    have "8 * length (b # rest) - 1 = 7 + 8 * length rest" by simp
    then have "(2::nat) ^ (8 * length (b # rest) - 1) = 2 ^ 7 * (2 ^ 8) ^ length rest"
      by (simp only: power_add power_mult)
    then show ?thesis by (simp add: X_def)
  qed
  have r: "be_nat rest < X" unfolding X_def by (rule be_nat_less)
  have v: "be_nat (b # rest) = unat b * X + be_nat rest"
    by (simp add: be_nat_Cons X_def)
  show ?thesis
  proof (cases "128 \<le> unat b")
    case True
    then have "128 * X \<le> unat b * X" by (rule mult_le_mono1)
    then have "128 * X \<le> unat b * X + be_nat rest" by linarith
    with True show ?thesis unfolding p v by blast
  next
    case False
    then have "unat b \<le> 127" by simp
    then have "unat b * X \<le> 127 * X" by (rule mult_le_mono1)
    with r have "\<not> 128 * X \<le> unat b * X + be_nat rest" by linarith
    with False show ?thesis unfolding p v by blast
  qed
qed

lemma asn1Signed_value:
  assumes "bs \<noteq> []" "length bs \<le> 8"
  shows "\<exists>i. asn1Signed bs = Some i \<and> sint i = der_integer_value bs"
proof -
  obtain b rest where bs: "bs = b # rest" using assms(1) by (cases bs) auto
  define k where "k = 8 * length bs"
  have k: "0 < k" "k \<le> 64" using assms by (auto simp: k_def)
  have sh: "64 - length bs * 8 = 64 - k" by (simp add: k_def)
  have u: "be_nat bs < 2 ^ k"
  proof -
    have "(256::nat) ^ length bs = 2 ^ k"
      unfolding k_def by (simp add: power_mult)
    with be_nat_less[of bs] show ?thesis by simp
  qed
  have out: "foldl (\<lambda>out b. push_bit 8 out OR ucast b) (0 :: 64 word) bs = of_nat (be_nat bs)"
    using foldl_word64[of 0 bs] by simp
  have pk: "(2::int) ^ k = 256 ^ length bs"
    unfolding k_def by (simp add: power_mult)
  have "asn1Signed bs = Some (signed_drop_bit (64 - k) (push_bit (64 - k) (of_nat (be_nat bs))))"
    using assms(2) by (simp add: asn1Signed_def Let_def out sh)
  moreover have "sint (signed_drop_bit (64 - k) (push_bit (64 - k) (of_nat (be_nat bs) :: 64 word)))
      = der_integer_value bs"
    unfolding sint_sign_extend[OF k u] pk
    using be_nat_sign[of b rest] by (simp add: bs der_integer_value_Cons k_def)
  ultimately show ?thesis by blast
qed

lemma asn1Signed_long: "length bs > 8 \<Longrightarrow> asn1Signed bs = None"
  by (simp add: asn1Signed_def)


lemma byte_eq_unat: "(w :: byte) = 0 \<longleftrightarrow> unat w = 0" "(w :: byte) = 0xff \<longleftrightarrow> unat w = 255"
  using word_unat_eq_iff[of w 0] word_unat_eq_iff[of w "0xff"] by simp_all

lemma unat_byte_le: "unat (w :: byte) \<le> 255"
proof -
  have "unat w < 2 ^ LENGTH(8)" by (rule unsigned_less)
  then show ?thesis by simp
qed

lemma uint_byte_le: "uint (w :: byte) \<le> 255"
proof -
  have "uint w < 2 ^ LENGTH(8)" by (rule unsigned_less)
  then show ?thesis by simp
qed


lemma minimal_integer_magnitude:
  assumes "checkASN1Integer (b0 # b1 # rest)"
  shows "128 * 256 ^ length rest \<le> der_integer_value (b0 # b1 # rest)
       \<or> der_integer_value (b0 # b1 # rest) < - (128 * 256 ^ length rest)"
proof -
  define X :: int where "X = 256 ^ length rest"
  define r :: int where "r = int (be_nat rest)"
  define a0 :: int where "a0 = uint b0"
  define a1 :: int where "a1 = uint b1"
  have X: "0 < X" by (simp add: X_def)
  have "int (be_nat rest) < int (256 ^ length rest)"
    using be_nat_less[of rest] by (simp only: of_nat_less_iff)
  then have r: "0 \<le> r" "r < X"
    by (simp_all add: r_def X_def)
  have a0: "0 \<le> a0" "a0 \<le> 255" and a1: "0 \<le> a1" "a1 \<le> 255"
    using uint_byte_le[of b0] uint_byte_le[of b1] by (simp_all add: a0_def a1_def)
  have "be_nat (b0 # b1 # rest) = unat b0 * (256 * 256 ^ length rest) + unat b1 * 256 ^ length rest + be_nat rest"
    by (simp add: be_nat_Cons)
  then have "int (be_nat (b0 # b1 # rest)) = int (unat b0 * (256 * 256 ^ length rest) + unat b1 * 256 ^ length rest + be_nat rest)"
    by (simp only:)
  then have be: "int (be_nat (b0 # b1 # rest)) = a0 * (256 * X) + a1 * X + r"
    by (simp add: X_def r_def a0_def a1_def)
  have len: "(256::int) ^ length (b0 # b1 # rest) = 65536 * X"
    by (simp add: X_def)
  have v: "der_integer_value (b0 # b1 # rest)
     = (if 128 \<le> a0 then a0 * (256 * X) + a1 * X + r - 65536 * X else a0 * (256 * X) + a1 * X + r)"
  proof -
    have "int 128 \<le> int (unat b0) \<longleftrightarrow> 128 \<le> unat b0" by (rule of_nat_le_iff)
    then have h: "128 \<le> unat b0 \<longleftrightarrow> 128 \<le> a0" by (simp add: a0_def)
    show ?thesis unfolding der_integer_value_Cons be len h ..
  qed
  from assms have c: "\<not> (a0 = 0 \<and> a1 < 128)" "\<not> (a0 = 255 \<and> 128 \<le> a1)"
  proof -
    have "int (unat b1) < int 128 \<longleftrightarrow> unat b1 < 128" by (rule of_nat_less_iff)
    then have h1: "unat b1 < 128 \<longleftrightarrow> a1 < 128" by (simp add: a1_def)
    have "int (unat b0) = int 0 \<longleftrightarrow> unat b0 = 0" "int (unat b0) = int 255 \<longleftrightarrow> unat b0 = 255"
      by (simp_all only: of_nat_eq_iff)
    then have h0: "unat b0 = 0 \<longleftrightarrow> a0 = 0" "unat b0 = 255 \<longleftrightarrow> a0 = 255"
      by (simp_all add: a0_def)
    from assms have "\<not> (b0 = 0 \<and> b1 AND 0x80 = 0 \<or> b0 = 0xff \<and> b1 AND 0x80 = 0x80)"
      by (simp add: checkASN1Integer_def)
    then have "\<not> (b0 = 0 \<and> unat b1 < 128 \<or> b0 = 0xff \<and> 128 \<le> unat b1)"
      unfolding byte_and80 byte_and80' .
    then have "\<not> (unat b0 = 0 \<and> unat b1 < 128)" "\<not> (unat b0 = 255 \<and> \<not> unat b1 < 128)"
      unfolding byte_eq_unat by (simp_all add: not_less)
    then show "\<not> (a0 = 0 \<and> a1 < 128)" "\<not> (a0 = 255 \<and> 128 \<le> a1)"
      unfolding h0 h1 by (simp_all add: not_less)
  qed
  have m1: "a1 * X \<le> 255 * X" "0 \<le> a1 * X"
    using a1 X by (simp_all add: mult_right_mono)
  have goal: "128 * X \<le> der_integer_value (b0 # b1 # rest)
       \<or> der_integer_value (b0 # b1 # rest) < - (128 * X)"
  proof (cases "128 \<le> a0")
    case True
    show ?thesis
    proof (cases "a0 = 255")
      case a: True
      with c have "a1 \<le> 127" by linarith
      then have "a1 * X \<le> 127 * X" using X by (simp add: mult_right_mono)
      moreover have "a0 * (256 * X) = 255 * (256 * X)" by (simp only: a)
      ultimately have "a0 * (256 * X) + a1 * X + r - 65536 * X < - (128 * X)"
        using r X by linarith
      with True show ?thesis by (simp add: v)
    next
      case False
      with a0 have "a0 \<le> 254" by linarith
      then have "a0 * (256 * X) \<le> 254 * (256 * X)" using X by (simp add: mult_right_mono)
      with m1 r X have "a0 * (256 * X) + a1 * X + r - 65536 * X < - (128 * X)"
        by linarith
      with True show ?thesis by (simp add: v)
    qed
  next
    case False
    show ?thesis
    proof (cases "a0 = 0")
      case a: True
      with c have "128 \<le> a1" by linarith
      then have "128 * X \<le> a1 * X" using X by (simp add: mult_right_mono)
      moreover have "a0 * (256 * X) = 0" by (simp only: a mult_zero_left)
      ultimately have "128 * X \<le> a0 * (256 * X) + a1 * X + r"
        using r by linarith
      with False show ?thesis by (simp add: v)
    next
      case nz: False
      with a0 have "1 \<le> a0" by linarith
      then have "1 * (256 * X) \<le> a0 * (256 * X)" using X by (intro mult_right_mono) simp_all
      with m1 r X have "128 * X \<le> a0 * (256 * X) + a1 * X + r" by linarith
      with False show ?thesis by (simp add: v)
    qed
  qed
  then show ?thesis unfolding X_def .
qed

lemma ReadASN1Integer_big_tlv:
  assumes "hdr c + length c < 2 ^ 32"
  shows "ReadASN1Integer_big \<lparr>ptr = p, bytes = tlv INTEGER c @ rest\<rparr> =
           (if checkASN1Integer c
            then Some (der_integer_value c, \<lparr>ptr = p + (hdr c + length c), bytes = rest\<rparr>)
            else None)"
proof -
  have r: "ReadASN1 \<lparr>ptr = p, bytes = tlv INTEGER c @ rest\<rparr> INTEGER
             = Some (\<lparr>ptr = p + hdr c, bytes = c\<rparr>, \<lparr>ptr = p + (hdr c + length c), bytes = rest\<rparr>)"
    by (simp add: ReadASN1_tlv[OF _ assms])
  show ?thesis
  proof (cases c)
    case Nil
    then show ?thesis
      unfolding ReadASN1Integer_big_def readASN1BigInt_def r
      by (simp add: checkASN1Integer_def)
  next
    case (Cons b0 bs)
    show ?thesis
      unfolding ReadASN1Integer_big_def readASN1BigInt_def r
      using bigint_value[of b0 bs] by (simp add: Cons split: if_splits)
  qed
qed

lemma fits_int32_short:
  assumes "checkASN1Integer c" "fits_int32 (der_integer_value c)"
  shows "length c \<le> 4"
proof (rule ccontr)
  assume "\<not> length c \<le> 4"
  then obtain b0 b1 rest where c: "c = b0 # b1 # rest" and l: "3 \<le> length rest"
    by (cases c; cases "tl c") auto
  from l have "(256::int) ^ 3 \<le> 256 ^ length rest"
    by (rule power_increasing) simp
  then have "(2::int) ^ 31 \<le> 128 * 256 ^ length rest" by simp
  with minimal_integer_magnitude[OF assms(1)[unfolded c]] assms(2)
  show False unfolding c fits_int32_def by linarith
qed

lemma ReadASN1Integer_int32_tlv:
  assumes "hdr c + length c < 2 ^ 32"
  shows "ReadASN1Integer_int32 \<lparr>ptr = p, bytes = tlv INTEGER c @ rest\<rparr> =
           (if checkASN1Integer c \<and> fits_int32 (der_integer_value c)
            then Some (word_of_int (der_integer_value c), \<lparr>ptr = p + (hdr c + length c), bytes = rest\<rparr>)
            else None)"
proof (cases "checkASN1Integer c")
  case False
  then show ?thesis
    by (simp add: ReadASN1Integer_int32_def readASN1Int64_def ReadASN1_tlv[OF _ assms])
next
  case chk: True
  then have ne: "c \<noteq> []" by (rule checkASN1Integer_nonempty)
  show ?thesis
  proof (cases "length c \<le> 8")
    case False
    then have "asn1Signed c = None" by (simp add: asn1Signed_long)
    moreover have "\<not> fits_int32 (der_integer_value c)"
      using fits_int32_short[OF chk] False by auto
    ultimately show ?thesis
      by (simp add: ReadASN1Integer_int32_def readASN1Int64_def ReadASN1_tlv[OF _ assms] chk)
  next
    case True
    from asn1Signed_value[OF ne True] obtain i where
      i: "asn1Signed c = Some i" "sint i = der_integer_value c" by blast
    have ov: "OverflowInt32 i \<longleftrightarrow> \<not> fits_int32 (der_integer_value c)"
      unfolding OverflowInt32_def fits_int32_def i(2)[symmetric]
      using OverflowInt32_iff[of i] by blast
    have w: "fits_int32 (der_integer_value c) \<Longrightarrow> (ucast i :: 32 word) = word_of_int (der_integer_value c)"
    proof -
      assume "fits_int32 (der_integer_value c)"
      then have "sint (ucast i :: 32 word) = sint i"
        unfolding fits_int32_def i(2)[symmetric] by (intro sint_ucast_32) simp_all
      moreover have "sint (word_of_int (der_integer_value c) :: 32 word) = der_integer_value c"
        using \<open>fits_int32 (der_integer_value c)\<close>
        by (simp add: sint_sbintrunc' signed_take_bit_int_eq_self fits_int32_def)
      ultimately have "sint (ucast i :: 32 word) = sint (word_of_int (der_integer_value c) :: 32 word)"
        using i(2) by simp
      then show ?thesis by (rule signed_word_eqI)
    qed
    show ?thesis
      using w by (simp add: ReadASN1Integer_int32_def readASN1Int64_def ReadASN1_tlv[OF _ assms] chk i ov)
  qed
qed

section \<open>The decoder (\<^verbatim>\<open>ctl.go\<close>)\<close>

text \<open>The record \<^verbatim>\<open>CTL\<close>. \<open>SequenceNumber\<close> is a \<^verbatim>\<open>big.Int\<close>, an unbounded
  integer; \<open>CTLogsVersion\<close> is a slice of \<^verbatim>\<open>int32\<close>; \<open>CTLogs\<close> is a slice of byte
  slices.\<close>

record 'time CTL =
  SequenceNumber :: int
  EffectiveDate :: 'time
  CTLogsVersion :: "32 word list"
  CTLogs :: "String list"

text \<open>One constructor for each message the source passes to \<^verbatim>\<open>fmt.Errorf\<close>; the
  last three wrap the error of the stage below (\<^verbatim>\<open>%w\<close>).\<close>

datatype error =
    MalformedSEQUENCE
  | MalformedOBJECT_IDENTIFIER
  | MalformedSEQUENCE2
  | MalformedSEQUENCE3
  | MalformedINTEGER
  | MalformedSET
  | MalformedSEQUENCE4
  | MalformedContentOBJECT_IDENTIFIER
  | MalformedSEQUENCE5
  | MalformedContentElement
  | TrailingBytesAfterSEQUENCE
  | MalformedSignersSEQUENCE
  | MalformedSequenceNumberINTEGER
  | MalformedEffectiveDateUTCTIME
  | MalformedAlgorithmIdentifierSEQUENCE
  | MalformedEntriesSEQUENCE
  | MalformedExtensionsSEQUENCE
  | MalformedInnerExtensionsSEQUENCE
  | MalformedExtensionSEQUENCE
  | MalformedExtensionOBJECT_IDENTIFIER
  | MalformedExtensionBOOLEAN
  | MalformedExtensionOCTET_STRING
  | MalformedVersionSEQUENCE
  | VersionSEQUENCEContainsMalformedINTEGER
  | MalformedSPKISEQUENCE
  | ErrorParsingPKCS7 error
  | ErrorParsingCTL error
  | ErrorParsingCTLogsExtension error

text \<open>\<^verbatim>\<open>parsePKCS7\<close>. Where the source reads from \<open>sequence\<close> into \<open>sequence\<close>
  itself (\<^verbatim>\<open>sequence.ReadASN1(&sequence, ...)\<close>), the variable ends up holding the
  contents of the element read, and whatever followed that element is dropped.\<close>

definition parsePKCS7 :: "String \<Rightarrow> error + (nat list \<times> String)" where
  "parsePKCS7 der =
     (case ReadASN1 der SEQUENCE of
        None \<Rightarrow> Inl MalformedSEQUENCE
      | Some (sequence, der1) \<Rightarrow>
     (case SkipASN1 sequence OBJECT_IDENTIFIER of
        None \<Rightarrow> Inl MalformedOBJECT_IDENTIFIER
      | Some sequence \<Rightarrow>
     (case ReadASN1 sequence CONTEXT0 of
        None \<Rightarrow> Inl MalformedSEQUENCE2
      | Some (sequence, _) \<Rightarrow>
     (case ReadASN1 sequence SEQUENCE of
        None \<Rightarrow> Inl MalformedSEQUENCE3
      | Some (sequence, _) \<Rightarrow>
     (case SkipASN1 sequence INTEGER of
        None \<Rightarrow> Inl MalformedINTEGER
      | Some sequence \<Rightarrow>
     (case SkipASN1 sequence SET of
        None \<Rightarrow> Inl MalformedSET
      | Some sequence \<Rightarrow>
     (case ReadASN1 sequence SEQUENCE of
        None \<Rightarrow> Inl MalformedSEQUENCE4
      | Some (sequence, _) \<Rightarrow>
     (case ReadASN1ObjectIdentifier sequence of
        None \<Rightarrow> Inl MalformedContentOBJECT_IDENTIFIER
      | Some (oid, sequence) \<Rightarrow>
     (case ReadASN1 sequence CONTEXT0 of
        None \<Rightarrow> Inl MalformedSEQUENCE5
      | Some (sequence, _) \<Rightarrow>
     (case ReadAnyASN1Element sequence of
        None \<Rightarrow> Inl MalformedContentElement
      | Some (content, contentTag, sequence) \<Rightarrow>
          Inr (oid, content)))))))))))"

text \<open>The two loops of \<^verbatim>\<open>parseCTLogs\<close>, with the slice being appended to as the
  accumulator.\<close>

function versionLoop :: "String \<Rightarrow> 32 word list \<Rightarrow> error + 32 word list" where
  "versionLoop versionSequence version =
     (if \<not> Empty versionSequence then
        (case ReadASN1Integer_int32 versionSequence of
           None \<Rightarrow> Inl VersionSEQUENCEContainsMalformedINTEGER
         | Some (i, versionSequence') \<Rightarrow> versionLoop versionSequence' (version @ [i]))
      else Inr version)"
  by pat_completeness auto
termination
  by (relation "measure (\<lambda>(s, v). length (bytes s))")
     (auto dest: ReadASN1Integer_int32_shorter)

function pubkeysLoop :: "String \<Rightarrow> String list \<Rightarrow> error + String list" where
  "pubkeysLoop sequence pubkeys =
     (if \<not> Empty sequence then
        (case ReadASN1Element sequence SEQUENCE of
           None \<Rightarrow> Inl MalformedSPKISEQUENCE
         | Some (spki, sequence') \<Rightarrow> pubkeysLoop sequence' (pubkeys @ [spki]))
      else Inr pubkeys)"
  by pat_completeness auto
termination
  by (relation "measure (\<lambda>(s, v). length (bytes s))")
     (auto dest: ReadASN1Element_shorter)

declare versionLoop.simps [simp del] pubkeysLoop.simps [simp del]

definition parseCTLogs :: "String \<Rightarrow> error + (32 word list \<times> String list)" where
  "parseCTLogs der =
     (case ReadASN1 der SEQUENCE of
        None \<Rightarrow> Inl MalformedSEQUENCE
      | Some (sequence, der') \<Rightarrow>
          if \<not> Empty der' then Inl TrailingBytesAfterSEQUENCE
          else
     (case ReadASN1 sequence SEQUENCE of
        None \<Rightarrow> Inl MalformedVersionSEQUENCE
      | Some (versionSequence, sequence) \<Rightarrow>
     (case versionLoop versionSequence [] of
        Inl e \<Rightarrow> Inl e
      | Inr version \<Rightarrow>
     (case pubkeysLoop sequence [] of
        Inl e \<Rightarrow> Inl e
      | Inr pubkeys \<Rightarrow> Inr (version, pubkeys)))))"

text \<open>The extension loop of \<^verbatim>\<open>parseCTL\<close>; \<open>ctl\<close> is the record being filled. The
  object identifier compared against is 1.3.6.1.4.1.311.10.3.52.\<close>

function extensionsLoop :: "String \<Rightarrow> 'time CTL \<Rightarrow> error + 'time CTL" where
  "extensionsLoop extensions ctl =
     (if \<not> Empty extensions then
        (case ReadASN1 extensions SEQUENCE of
           None \<Rightarrow> Inl MalformedExtensionSEQUENCE
         | Some (extension, extensions') \<Rightarrow>
        (case ReadASN1ObjectIdentifier extension of
           None \<Rightarrow> Inl MalformedExtensionOBJECT_IDENTIFIER
         | Some (id', extension) \<Rightarrow>
        (case SkipOptionalASN1 extension BOOLEAN of
           None \<Rightarrow> Inl MalformedExtensionBOOLEAN
         | Some extension \<Rightarrow>
        (case ReadASN1 extension OCTET_STRING of
           None \<Rightarrow> Inl MalformedExtensionOCTET_STRING
         | Some (val, extension) \<Rightarrow>
             if id' = [1, 3, 6, 1, 4, 1, 311, 10, 3, 52] then
               (case parseCTLogs val of
                  Inl err \<Rightarrow> Inl (ErrorParsingCTLogsExtension err)
                | Inr (version, pubkeys) \<Rightarrow>
                    extensionsLoop extensions'
                      (ctl\<lparr>CTLogsVersion := version, CTLogs := pubkeys\<rparr>))
             else extensionsLoop extensions' ctl))))
      else Inr ctl)"
  by pat_completeness auto
termination
  by (relation "measure (\<lambda>(s, c). length (bytes s))")
     (auto dest: ReadASN1_shorter)

declare extensionsLoop.simps [simp del]

text \<open>\<^verbatim>\<open>parseCTL\<close>. \<^verbatim>\<open>new(CTL)\<close> starts with nil slices; the two mandatory
  fields are set before anything can be returned.\<close>

definition parseCTL :: "(byte list \<Rightarrow> 'time option) \<Rightarrow> String \<Rightarrow> error + 'time CTL" where
  "parseCTL parseTime der =
     (case ReadASN1 der SEQUENCE of
        None \<Rightarrow> Inl MalformedSEQUENCE
      | Some (sequence, der') \<Rightarrow>
          if \<not> Empty der' then Inl TrailingBytesAfterSEQUENCE
          else
     (case SkipASN1 sequence SEQUENCE of
        None \<Rightarrow> Inl MalformedSignersSEQUENCE
      | Some sequence \<Rightarrow>
     (case ReadASN1Integer_big sequence of
        None \<Rightarrow> Inl MalformedSequenceNumberINTEGER
      | Some (sequenceNumber, sequence) \<Rightarrow>
     (case ReadASN1UTCTime parseTime sequence of
        None \<Rightarrow> Inl MalformedEffectiveDateUTCTIME
      | Some (effectiveDate, sequence) \<Rightarrow>
     (case SkipASN1 sequence SEQUENCE of
        None \<Rightarrow> Inl MalformedAlgorithmIdentifierSEQUENCE
      | Some sequence \<Rightarrow>
     (case SkipASN1 sequence SEQUENCE of
        None \<Rightarrow> Inl MalformedEntriesSEQUENCE
      | Some sequence \<Rightarrow>
     (case ReadOptionalASN1 sequence CONTEXT0 of
        None \<Rightarrow> Inl MalformedExtensionsSEQUENCE
      | Some (hasExtensions, sequence) \<Rightarrow>
          let ctl = \<lparr>SequenceNumber = sequenceNumber, EffectiveDate = effectiveDate,
                     CTLogsVersion = [], CTLogs = []\<rparr>
          in
          (case hasExtensions of
             None \<Rightarrow> Inr ctl
           | Some extensions \<Rightarrow>
               (case ReadASN1 extensions SEQUENCE of
                  None \<Rightarrow> Inl MalformedInnerExtensionsSEQUENCE
                | Some (extensions, _) \<Rightarrow> extensionsLoop extensions ctl)))))))))"

definition ParseAuthrootstl :: "(byte list \<Rightarrow> 'time option) \<Rightarrow> String \<Rightarrow> error + 'time CTL" where
  "ParseAuthrootstl parseTime der =
     (case parsePKCS7 der of
        Inl err \<Rightarrow> Inl (ErrorParsingPKCS7 err)
      | Inr (_, content) \<Rightarrow>
          (case parseCTL parseTime content of
             Inl err \<Rightarrow> Inl (ErrorParsingCTL err)
           | Inr ctl \<Rightarrow> Inr ctl))"

section \<open>Encoded inputs\<close>

text \<open>The PKCS#7 envelope of spec section 4.2: the ContentInfo SEQUENCE with its
  content-type OBJECT IDENTIFIER and, inside the \<open>[0]\<close> wrapper, the SignedData
  SEQUENCE: version, digest algorithms, the inner contentInfo (its own content type
  and, in a \<open>[0]\<close> wrapper, the content), then whatever else SignedData holds
  (certificates, signer infos). Each argument is the contents of its element, except
  \<open>content\<close> and \<open>signerInfos\<close>, which are whole elements.\<close>

definition envelope ::
  "byte list \<Rightarrow> byte list \<Rightarrow> byte list \<Rightarrow> byte list \<Rightarrow> byte list \<Rightarrow> byte list \<Rightarrow> byte list" where
  "envelope contentType version digestAlgorithms innerType content signerInfos =
     tlv SEQUENCE
       (tlv OBJECT_IDENTIFIER contentType @
        tlv CONTEXT0
          (tlv SEQUENCE
             (tlv INTEGER version @
              tlv SET digestAlgorithms @
              tlv SEQUENCE (tlv OBJECT_IDENTIFIER innerType @ tlv CONTEXT0 content) @
              signerInfos)))"

text \<open>The value of the CT-log extension (spec section 4.4): a SEQUENCE holding the
  SEQUENCE of version INTEGERs and then one SEQUENCE element per public key.
  \<open>versions\<close> and \<open>spkis\<close> list the contents of those elements.\<close>

definition ctlogs_value :: "byte list list \<Rightarrow> byte list list \<Rightarrow> byte list" where
  "ctlogs_value versions spkis =
     tlv SEQUENCE (tlv SEQUENCE (concat (map (tlv INTEGER) versions)) @
                   concat (map (tlv SEQUENCE) spkis))"

text \<open>One extension of the CTL (spec section 4.3): the contents of its OBJECT
  IDENTIFIER, of its optional critical BOOLEAN and of its OCTET STRING. The value is
  either any bytes or a CT-log list, given by the contents of its version INTEGERs
  and of its public-key elements.\<close>

datatype ExtnValue = Bytes "byte list" | LogList "byte list list" "byte list list"

fun value_der :: "ExtnValue \<Rightarrow> byte list" where
  "value_der (Bytes b) = b"
| "value_der (LogList versions spkis) = ctlogs_value versions spkis"

record Extension =
  extnID :: "byte list"
  critical :: "byte list option"
  extnValue :: ExtnValue

definition extension_der :: "Extension \<Rightarrow> byte list" where
  "extension_der e =
     tlv SEQUENCE
       (tlv OBJECT_IDENTIFIER (extnID e) @
        (case critical e of None \<Rightarrow> [] | Some b \<Rightarrow> tlv BOOLEAN b) @
        tlv OCTET_STRING (value_der (extnValue e)))"

definition ctlogs_oid :: "nat list" where
  "ctlogs_oid = [1, 3, 6, 1, 4, 1, 311, 10, 3, 52]"

definition version_ok :: "byte list \<Rightarrow> bool" where
  "version_ok v = (checkASN1Integer v \<and> fits_int32 (der_integer_value v))"

definition int32_of :: "byte list \<Rightarrow> 32 word" where
  "int32_of v = word_of_int (der_integer_value v)"

text \<open>An extension whose object identifier decodes to something other than
  1.3.6.1.4.1.311.10.3.52, and an extension that carries that identifier and a CT-log
  value with versions that fit.\<close>

definition other_extension :: "Extension \<Rightarrow> bool" where
  "other_extension e = (case oid_arcs (extnID e) of None \<Rightarrow> False | Some a \<Rightarrow> a \<noteq> ctlogs_oid)"

definition ctlogs_extension :: "Extension \<Rightarrow> byte list list \<Rightarrow> byte list list \<Rightarrow> bool" where
  "ctlogs_extension e versions spkis =
     (oid_arcs (extnID e) = Some ctlogs_oid \<and> extnValue e = LogList versions spkis \<and>
      (\<forall>v \<in> set versions. version_ok v))"

text \<open>A well-formed extension is one of the two.\<close>

definition wf_extension :: "Extension \<Rightarrow> bool" where
  "wf_extension e =
     (other_extension e \<or>
      (case extnValue e of
         Bytes b \<Rightarrow> False
       | LogList versions spkis \<Rightarrow> ctlogs_extension e versions spkis))"

text \<open>An extension of the first kind that carries the DER encoding of the object identifier \<open>arcs\<close>,
  where \<open>arcs\<close> is not 1.3.6.1.4.1.311.10.3.52 and every subidentifier is below
  \<open>2 ^ 31\<close>; its value is any bytes.\<close>

definition small_other_extension :: "Extension \<Rightarrow> nat list \<Rightarrow> bool" where
  "small_other_extension e arcs =
     (extnID e = oid_der arcs \<and> oid_ok arcs \<and> (\<forall>v \<in> set (subidentifiers arcs). v < 2 ^ 31) \<and>
      arcs \<noteq> ctlogs_oid)"

text \<open>A whole input. The record lists the contents of every element the decoder
  visits: the fields of the envelope, then the fields of the CTL body of spec section
  4.3 (signers, sequence number, effective date, algorithm identifier, entries), and
  the extensions when the optional \<open>[0]\<close> block is present. \<open>ctl_der\<close> encodes the
  CTL body and \<open>authroot_der\<close> the input.

  The input is well formed when it is shorter than \<open>2 ^ 32\<close> bytes, the inner content
  type is an object identifier, the sequence number is a minimally encoded INTEGER
  and the effective date is a time. \<open>header_fields\<close> is the CTL such an input yields
  before any extension is looked at.\<close>

record Authroot =
  outerType :: "byte list"
  signedDataVersion :: "byte list"
  digestAlgorithms :: "byte list"
  innerType :: "byte list"
  signerInfos :: "byte list"
  signers :: "byte list"
  sequenceNumber :: "byte list"
  effectiveDate :: "byte list"
  algorithmIdentifier :: "byte list"
  entries :: "byte list"
  extensions :: "Extension list option"

definition ctl_der :: "Authroot \<Rightarrow> byte list" where
  "ctl_der a =
     tlv SEQUENCE
       (tlv SEQUENCE (signers a) @
        tlv INTEGER (sequenceNumber a) @
        tlv UTCTime (effectiveDate a) @
        tlv SEQUENCE (algorithmIdentifier a) @
        tlv SEQUENCE (entries a) @
        (case extensions a of
           None \<Rightarrow> []
         | Some es \<Rightarrow> tlv CONTEXT0 (tlv SEQUENCE (concat (map extension_der es)))))"

definition authroot_der :: "Authroot \<Rightarrow> byte list" where
  "authroot_der a =
     envelope (outerType a) (signedDataVersion a) (digestAlgorithms a) (innerType a)
       (ctl_der a) (signerInfos a)"

definition well_formed :: "(byte list \<Rightarrow> 'time option) \<Rightarrow> Authroot \<Rightarrow> bool" where
  "well_formed parseTime a =
     (length (authroot_der a) < 2 ^ 32 \<and>
      oid_arcs (innerType a) \<noteq> None \<and>
      checkASN1Integer (sequenceNumber a) \<and>
      parseTime (effectiveDate a) \<noteq> None)"

definition header_fields :: "(byte list \<Rightarrow> 'time option) \<Rightarrow> Authroot \<Rightarrow> 'time CTL" where
  "header_fields parseTime a =
     \<lparr>SequenceNumber = der_integer_value (sequenceNumber a),
      EffectiveDate = the (parseTime (effectiveDate a)),
      CTLogsVersion = [], CTLogs = []\<rparr>"

text \<open>A valid input is a well-formed one whose extensions, if it has any, are all
  well formed.\<close>

definition valid_input :: "(byte list \<Rightarrow> 'time option) \<Rightarrow> Authroot \<Rightarrow> bool" where
  "valid_input parseTime a =
     (well_formed parseTime a \<and>
      (case extensions a of None \<Rightarrow> True | Some es \<Rightarrow> \<forall>e \<in> set es. wf_extension e))"

section \<open>Memory\<close>

text \<open>A Go slice is an address and a length, and shows whatever the memory holds there.
  \<open>String\<close> records the address and the bytes shown while the decoder runs. To follow a
  slice after the decoder has returned, memory is a map from addresses to bytes:
  \<open>load m p n\<close> is the \<open>n\<close> bytes at address \<open>p\<close>, \<open>view m p n\<close> the slice of that
  address and length in the memory \<open>m\<close>, and \<open>reload m s\<close> what the slice \<open>s\<close> shows when
  the memory is \<open>m\<close>. A write of the byte \<open>v\<close> at the address \<open>a\<close> is \<open>m(a := v)\<close>.
  \<open>memory_of bs\<close> holds \<open>bs\<close> from address 0 on.

  \<^verbatim>\<open>[]byte(spki)\<close> in \<open>parseCTLogs\<close> is a conversion between slice types: it keeps
  the address and the length, which is why the entries of \<open>CTLogs\<close> are \<open>String\<close>s
  here.\<close>

type_synonym memory = "nat \<Rightarrow> byte"

definition load :: "memory \<Rightarrow> nat \<Rightarrow> nat \<Rightarrow> byte list" where
  "load m p n = map m [p ..< p + n]"

definition view :: "memory \<Rightarrow> nat \<Rightarrow> nat \<Rightarrow> String" where
  "view m p n = \<lparr>ptr = p, bytes = load m p n\<rparr>"

definition reload :: "memory \<Rightarrow> String \<Rightarrow> byte list" where
  "reload m s = load m (ptr s) (length (bytes s))"

definition memory_of :: "byte list \<Rightarrow> memory" where
  "memory_of bs = (\<lambda>a. if a < length bs then bs ! a else 0)"

text \<open>\<open>subslice x s\<close>: the slice \<open>x\<close> lies within the address range of \<open>s\<close> and shows the
  bytes \<open>s\<close> shows there.\<close>

definition subslice :: "String \<Rightarrow> String \<Rightarrow> bool" where
  "subslice x s =
     (ptr s \<le> ptr x \<and> ptr x + length (bytes x) \<le> ptr s + length (bytes s) \<and>
      bytes x = take (length (bytes x)) (drop (ptr x - ptr s) (bytes s)))"
section \<open>Reading from a buffer with bytes appended\<close>

lemma asn1_header_append:
  assumes "asn1_header bs = Some (t, hl, n)"
  shows "asn1_header (bs @ extra) = Some (t, hl, n)"
proof -
  from assms obtain tag lenByte rest where bs: "bs = tag # lenByte # rest"
    by (cases bs; cases "tl bs") (auto simp: asn1_header_def)
  show ?thesis
    using assms unfolding bs
    by (auto simp: asn1_header_Cons2 Let_def split: if_splits)
qed

lemma readASN1_append:
  assumes "readASN1 s sk = Some (out, t, s')"
  shows "readASN1 (s\<lparr>bytes := bytes s @ extra\<rparr>) sk = Some (out, t, s'\<lparr>bytes := bytes s' @ extra\<rparr>)"
proof -
  from assms obtain hl n where h: "asn1_header (bytes s) = Some (t, hl, n)"
    and n: "n \<le> length (bytes s)" and o: "out = element s sk hl n"
    and s': "s' = \<lparr>ptr = ptr s + n, bytes = drop n (bytes s)\<rparr>"
    by (auto simp: readASN1_header split: option.splits if_splits)
  show ?thesis
    using n by (simp add: readASN1_header asn1_header_append[OF h] o s' element_def)
qed

lemma ReadASN1_append:
  assumes "ReadASN1 s tag = Some (out, s')"
  shows "ReadASN1 (s\<lparr>bytes := bytes s @ extra\<rparr>) tag = Some (out, s'\<lparr>bytes := bytes s' @ extra\<rparr>)"
  using assms
  by (auto simp: ReadASN1_def ReadAnyASN1_def readASN1_append split: option.splits if_splits)

section \<open>Decoding an encoded envelope\<close>

lemma parsePKCS7_envelope:
  assumes len: "length (envelope ct ver da it (tlv t c) si) < 2 ^ 32"
    and oid: "oid_arcs it = Some arcs" and t: "lowtag t"
  shows "\<exists>q. parsePKCS7 \<lparr>ptr = p, bytes = envelope ct ver da it (tlv t c) si @ extra\<rparr>
           = Inr (arcs, \<lparr>ptr = q, bytes = tlv t c\<rparr>)"
  using len t
  apply (simp add: envelope_def length_tlv_hdr)
  apply (simp add: parsePKCS7_def envelope_def ReadASN1_tlv tlv_last SkipASN1_tlv ReadASN1ObjectIdentifier_tlv
       length_tlv_hdr oid ReadAnyASN1Element_def readASN1_tlv)
  done

section \<open>Decoding encoded lists\<close>

text \<open>\<open>slices p xs\<close> are the consecutive sub-slices that show the byte strings \<open>xs\<close>
  when they are laid out one after the other from address \<open>p\<close>.\<close>

lemma Empty_simps [simp]:
  "Empty \<lparr>ptr = p, bytes = []\<rparr>" "\<not> Empty \<lparr>ptr = p, bytes = tlv t c @ rest\<rparr>"
  by (simp_all add: Empty_def tlv_def)

fun slices :: "nat \<Rightarrow> byte list list \<Rightarrow> String list" where
  "slices p [] = []"
| "slices p (x # xs) = \<lparr>ptr = p, bytes = x\<rparr> # slices (p + length x) xs"

lemma map_bytes_slices [simp]: "map bytes (slices p xs) = xs"
  by (induction xs arbitrary: p) simp_all

lemma length_concat_tlv_bound:
  "length (concat (map (tlv t) (c # cs))) < n \<Longrightarrow>
     hdr c + length c < n \<and> length (concat (map (tlv t) cs)) < n"
  by (simp add: length_tlv_hdr)

lemma versionLoop_ok:
  assumes "\<forall>v \<in> set vs. checkASN1Integer v \<and> fits_int32 (der_integer_value v)"
    and "length (concat (map (tlv INTEGER) vs)) < 2 ^ 32"
  shows "versionLoop \<lparr>ptr = p, bytes = concat (map (tlv INTEGER) vs)\<rparr> version
           = Inr (version @ map (\<lambda>v. word_of_int (der_integer_value v)) vs)"
  using assms
proof (induction vs arbitrary: p version)
  case Nil
  then show ?case by (simp add: versionLoop.simps)
next
  case (Cons v vs)
  from length_concat_tlv_bound[OF Cons.prems(2)]
  have b: "hdr v + length v < 2 ^ 32" "length (concat (map (tlv INTEGER) vs)) < 2 ^ 32" by auto
  show ?case
    using Cons.prems(1)
    by (subst versionLoop.simps)
       (simp add: ReadASN1Integer_int32_tlv[OF b(1)] Cons.IH[OF _ b(2)])
qed

lemma versionLoop_bad:
  assumes "\<forall>v \<in> set pre. checkASN1Integer v \<and> fits_int32 (der_integer_value v)"
    and "\<not> (checkASN1Integer bad \<and> fits_int32 (der_integer_value bad))"
    and "length (concat (map (tlv INTEGER) pre) @ tlv INTEGER bad @ rest) < 2 ^ 32"
  shows "versionLoop \<lparr>ptr = p, bytes = concat (map (tlv INTEGER) pre) @ tlv INTEGER bad @ rest\<rparr> version
           = Inl VersionSEQUENCEContainsMalformedINTEGER"
  using assms(1,3)
proof (induction pre arbitrary: p version)
  case Nil
  then have b: "hdr bad + length bad < 2 ^ 32" by (simp add: length_tlv_hdr)
  show ?case
    using assms(2)
    by (subst versionLoop.simps) (auto simp add: ReadASN1Integer_int32_tlv[OF b])
next
  case (Cons v vs)
  then have b: "hdr v + length v < 2 ^ 32"
    "length (concat (map (tlv INTEGER) vs) @ tlv INTEGER bad @ rest) < 2 ^ 32"
    by (simp_all add: length_tlv_hdr)
  show ?case
    using Cons.prems(1)
    by (subst versionLoop.simps)
       (simp add: ReadASN1Integer_int32_tlv[OF b(1)] Cons.IH[OF _ b(2)])
qed

lemma pubkeysLoop_ok:
  assumes "length (concat (map (tlv SEQUENCE) cs)) < 2 ^ 32"
  shows "pubkeysLoop \<lparr>ptr = p, bytes = concat (map (tlv SEQUENCE) cs)\<rparr> pubkeys
           = Inr (pubkeys @ slices p (map (tlv SEQUENCE) cs))"
  using assms
proof (induction cs arbitrary: p pubkeys)
  case Nil
  then show ?case by (simp add: pubkeysLoop.simps)
next
  case (Cons c cs)
  from length_concat_tlv_bound[OF Cons.prems]
  have b: "hdr c + length c < 2 ^ 32" "length (concat (map (tlv SEQUENCE) cs)) < 2 ^ 32" by auto
  show ?case
    by (subst pubkeysLoop.simps)
       (simp add: ReadASN1Element_tlv[OF _ b(1)] Cons.IH[OF b(2)] length_tlv_hdr)
qed


lemma parseCTLogs_ok:
  assumes "\<forall>v \<in> set vs. version_ok v"
    and "length (ctlogs_value vs cs) < 2 ^ 32"
  shows "\<exists>q. parseCTLogs \<lparr>ptr = p, bytes = ctlogs_value vs cs\<rparr>
           = Inr (map int32_of vs, slices q (map (tlv SEQUENCE) cs))"
proof -
  define V where "V = concat (map (tlv INTEGER) vs)"
  define K where "K = concat (map (tlv SEQUENCE) cs)"
  from assms(2) have b: "hdr (tlv SEQUENCE V @ K) + length (tlv SEQUENCE V @ K) < 2 ^ 32"
    "hdr V + length V < 2 ^ 32" "length V < 2 ^ 32" "length K < 2 ^ 32"
    by (simp_all add: ctlogs_value_def length_tlv_hdr V_def K_def)
  have v: "versionLoop \<lparr>ptr = q, bytes = V\<rparr> [] = Inr (map int32_of vs)" for q
    using versionLoop_ok[of vs q "[]"] assms(1) b(3)
    by (simp add: V_def version_ok_def int32_of_def)
  have k: "pubkeysLoop \<lparr>ptr = q, bytes = K\<rparr> [] = Inr (slices q (map (tlv SEQUENCE) cs))" for q
    using pubkeysLoop_ok[of cs q "[]"] b(4) by (simp add: K_def)
  show ?thesis
    unfolding ctlogs_value_def V_def[symmetric] K_def[symmetric]
    by (auto simp add: parseCTLogs_def tlv_last(2)[OF _ b(1)] ReadASN1_tlv[OF _ b(2)] v k)
qed


lemma extensionsLoop_step:
  assumes len: "length (extension_der e) < 2 ^ 32"
    and oid: "oid_arcs (extnID e) = Some a"
  shows "\<exists>q. extensionsLoop \<lparr>ptr = p, bytes = extension_der e @ rest\<rparr> ctl =
           (if a = ctlogs_oid then
              (case parseCTLogs \<lparr>ptr = q, bytes = value_der (extnValue e)\<rparr> of
                 Inl err \<Rightarrow> Inl (ErrorParsingCTLogsExtension err)
               | Inr (version, pubkeys) \<Rightarrow>
                   extensionsLoop \<lparr>ptr = p + length (extension_der e), bytes = rest\<rparr>
                     (ctl\<lparr>CTLogsVersion := version, CTLogs := pubkeys\<rparr>))
            else extensionsLoop \<lparr>ptr = p + length (extension_der e), bytes = rest\<rparr> ctl)"
proof -
  define B where "B = (case critical e of None \<Rightarrow> [] | Some b \<Rightarrow> tlv BOOLEAN b)"
  define C where "C = tlv OBJECT_IDENTIFIER (extnID e) @ B @ tlv OCTET_STRING (value_der (extnValue e))"
  have ext: "extension_der e = tlv SEQUENCE C"
    by (simp add: extension_der_def C_def B_def)
  from len have b: "hdr C + length C < 2 ^ 32" "hdr (extnID e) + length (extnID e) < 2 ^ 32"
    "hdr (value_der (extnValue e)) + length (value_der (extnValue e)) < 2 ^ 32"
    "\<And>x. critical e = Some x \<Longrightarrow> hdr x + length x < 2 ^ 32"
    by (auto simp add: ext length_tlv_hdr C_def B_def split: option.splits)
  have skip: "\<exists>d. SkipOptionalASN1 \<lparr>ptr = q, bytes = B @ tlv OCTET_STRING (value_der (extnValue e))\<rparr> BOOLEAN
                 = Some \<lparr>ptr = q + d, bytes = tlv OCTET_STRING (value_der (extnValue e))\<rparr>" for q
  proof (cases "critical e")
    case None
    then show ?thesis
      by (auto simp add: B_def SkipOptionalASN1_def tlv_last(5) tag_defs intro: exI[of _ 0])
  next
    case (Some x)
    then show ?thesis
      by (simp add: B_def SkipOptionalASN1_def PeekASN1Tag_tlv ReadASN1_tlv[OF _ b(4)[OF Some]])
  qed
  define q0 where "q0 = p + hdr C + (hdr (extnID e) + length (extnID e))"
  from skip[of q0] obtain d where
    d: "SkipOptionalASN1 \<lparr>ptr = q0, bytes = B @ tlv OCTET_STRING (value_der (extnValue e))\<rparr> BOOLEAN
                 = Some \<lparr>ptr = q0 + d, bytes = tlv OCTET_STRING (value_der (extnValue e))\<rparr>" by blast
  have r1: "ReadASN1 \<lparr>ptr = p, bytes = extension_der e @ rest\<rparr> SEQUENCE
      = Some (\<lparr>ptr = p + hdr C, bytes = C\<rparr>, \<lparr>ptr = p + length (extension_der e), bytes = rest\<rparr>)"
    by (simp add: ext ReadASN1_tlv[OF _ b(1)] length_tlv_hdr)
  have r2: "ReadASN1ObjectIdentifier \<lparr>ptr = p + hdr C, bytes = C\<rparr>
      = Some (a, \<lparr>ptr = q0, bytes = B @ tlv OCTET_STRING (value_der (extnValue e))\<rparr>)"
    unfolding q0_def
    by (subst C_def) (simp add: ReadASN1ObjectIdentifier_tlv[OF b(2)] oid)
  have r4: "ReadASN1 \<lparr>ptr = q0 + d, bytes = tlv OCTET_STRING (value_der (extnValue e))\<rparr> OCTET_STRING
      = Some (\<lparr>ptr = q0 + d + hdr (value_der (extnValue e)), bytes = value_der (extnValue e)\<rparr>,
              \<lparr>ptr = q0 + d + (hdr (value_der (extnValue e)) + length (value_der (extnValue e))), bytes = []\<rparr>)"
    by (simp add: tlv_last(2)[OF _ b(3)])
  have ne: "\<not> Empty \<lparr>ptr = p, bytes = extension_der e @ rest\<rparr>"
    by (simp add: ext)
  show ?thesis
    by (rule exI[of _ "q0 + d + hdr (value_der (extnValue e))"])
       (subst extensionsLoop.simps, simp add: ne r1 r2 d r4 ctlogs_oid_def)
qed

section \<open>Decoding an encoded input\<close>

lemma extensionsLoop_Nil: "extensionsLoop \<lparr>ptr = p, bytes = []\<rparr> ctl = Inr ctl"
  by (subst extensionsLoop.simps) simp

lemma extensionsLoop_other:
  assumes "length (extension_der e) < 2 ^ 32" "other_extension e"
  shows "extensionsLoop \<lparr>ptr = p, bytes = extension_der e @ rest\<rparr> ctl
           = extensionsLoop \<lparr>ptr = p + length (extension_der e), bytes = rest\<rparr> ctl"
proof -
  from assms(2) obtain a where a: "oid_arcs (extnID e) = Some a" "a \<noteq> ctlogs_oid"
    by (auto simp: other_extension_def split: option.splits)
  from extensionsLoop_step[OF assms(1) a(1), of p rest ctl] a(2) show ?thesis by auto
qed

lemma extensionsLoop_ctlogs:
  assumes "length (extension_der e) < 2 ^ 32" "ctlogs_extension e vs cs"
  shows "\<exists>q. extensionsLoop \<lparr>ptr = p, bytes = extension_der e @ rest\<rparr> ctl
           = extensionsLoop \<lparr>ptr = p + length (extension_der e), bytes = rest\<rparr>
               (ctl\<lparr>CTLogsVersion := map int32_of vs, CTLogs := slices q (map (tlv SEQUENCE) cs)\<rparr>)"
proof -
  from assms(2) have a: "oid_arcs (extnID e) = Some ctlogs_oid"
    and v: "value_der (extnValue e) = ctlogs_value vs cs" and ok: "\<forall>v \<in> set vs. version_ok v"
    by (auto simp: ctlogs_extension_def)
  have "length (value_der (extnValue e)) \<le> length (extension_der e)"
    by (simp add: extension_der_def length_tlv_hdr)
  with assms(1) have l: "length (ctlogs_value vs cs) < 2 ^ 32" by (simp add: v)
  from extensionsLoop_step[OF assms(1) a, of p rest ctl] obtain q where
    q: "extensionsLoop \<lparr>ptr = p, bytes = extension_der e @ rest\<rparr> ctl =
         (case parseCTLogs \<lparr>ptr = q, bytes = value_der (extnValue e)\<rparr> of
                 Inl err \<Rightarrow> Inl (ErrorParsingCTLogsExtension err)
               | Inr (version, pubkeys) \<Rightarrow>
                   extensionsLoop \<lparr>ptr = p + length (extension_der e), bytes = rest\<rparr>
                     (ctl\<lparr>CTLogsVersion := version, CTLogs := pubkeys\<rparr>))"
    by auto
  from parseCTLogs_ok[OF ok l, of q] obtain q' where
    "parseCTLogs \<lparr>ptr = q, bytes = ctlogs_value vs cs\<rparr>
           = Inr (map int32_of vs, slices q' (map (tlv SEQUENCE) cs))" by blast
  with q show ?thesis by (auto simp: v)
qed

lemma extensionsLoop_others:
  assumes "\<forall>e \<in> set es. other_extension e"
    and "length (concat (map extension_der es)) < 2 ^ 32"
  shows "extensionsLoop \<lparr>ptr = p, bytes = concat (map extension_der es) @ rest\<rparr> ctl
           = extensionsLoop \<lparr>ptr = p + length (concat (map extension_der es)), bytes = rest\<rparr> ctl"
  using assms
proof (induction es arbitrary: p)
  case Nil
  then show ?case by simp
next
  case (Cons e es)
  then have b: "length (extension_der e) < 2 ^ 32" "length (concat (map extension_der es)) < 2 ^ 32"
    by simp_all
  show ?case
    using Cons.prems(1)
    by (simp add: extensionsLoop_other[OF b(1)] Cons.IH[OF _ b(2)] add.assoc)
qed

lemma extensionsLoop_wf:
  assumes "\<forall>e \<in> set es. wf_extension e"
    and "length (concat (map extension_der es)) < 2 ^ 32"
  shows "\<exists>ctl'. extensionsLoop \<lparr>ptr = p, bytes = concat (map extension_der es) @ rest\<rparr> ctl
           = extensionsLoop \<lparr>ptr = p + length (concat (map extension_der es)), bytes = rest\<rparr> ctl'
         \<and> SequenceNumber ctl' = SequenceNumber ctl \<and> EffectiveDate ctl' = EffectiveDate ctl"
  using assms
proof (induction es arbitrary: p ctl)
  case Nil
  show ?case by (rule exI[of _ ctl]) simp
next
  case (Cons e es)
  then have b: "length (extension_der e) < 2 ^ 32" "length (concat (map extension_der es)) < 2 ^ 32"
    by simp_all
  from Cons.prems(1) have wf: "wf_extension e" "\<forall>e \<in> set es. wf_extension e" by simp_all
  from wf(1) obtain ctl1 where
    1: "extensionsLoop \<lparr>ptr = p, bytes = extension_der e @ concat (map extension_der es) @ rest\<rparr> ctl
          = extensionsLoop \<lparr>ptr = p + length (extension_der e), bytes = concat (map extension_der es) @ rest\<rparr> ctl1"
      "SequenceNumber ctl1 = SequenceNumber ctl" "EffectiveDate ctl1 = EffectiveDate ctl"
  proof (cases "other_extension e")
    case True
    from extensionsLoop_other[OF b(1) True] show ?thesis by (intro that[of ctl]) simp_all
  next
    case False
    with wf(1) obtain vs cs where "ctlogs_extension e vs cs"
      by (auto simp: wf_extension_def split: ExtnValue.splits)
    from extensionsLoop_ctlogs[OF b(1) this, of p "concat (map extension_der es) @ rest" ctl]
    obtain q where "extensionsLoop \<lparr>ptr = p, bytes = extension_der e @ concat (map extension_der es) @ rest\<rparr> ctl
           = extensionsLoop \<lparr>ptr = p + length (extension_der e), bytes = concat (map extension_der es) @ rest\<rparr>
               (ctl\<lparr>CTLogsVersion := map int32_of vs, CTLogs := slices q (map (tlv SEQUENCE) cs)\<rparr>)"
      by blast
    then show ?thesis
      by (intro that[of "ctl\<lparr>CTLogsVersion := map int32_of vs, CTLogs := slices q (map (tlv SEQUENCE) cs)\<rparr>"]) simp_all
  qed
  from Cons.IH[OF wf(2) b(2), of "p + length (extension_der e)" ctl1] obtain ctl' where
    2: "extensionsLoop \<lparr>ptr = p + length (extension_der e), bytes = concat (map extension_der es) @ rest\<rparr> ctl1
         = extensionsLoop \<lparr>ptr = p + length (extension_der e) + length (concat (map extension_der es)), bytes = rest\<rparr> ctl'"
       "SequenceNumber ctl' = SequenceNumber ctl1" "EffectiveDate ctl' = EffectiveDate ctl1"
    by blast
  show ?case
    using 1 2 by (intro exI[of _ ctl']) (simp add: add.assoc)
qed


lemma parseCTL_ctl_der:
  assumes "length (ctl_der a) < 2 ^ 32" "checkASN1Integer (sequenceNumber a)"
    "parseTime (effectiveDate a) \<noteq> None"
  shows "\<exists>q. parseCTL parseTime \<lparr>ptr = p, bytes = ctl_der a\<rparr> =
           (case extensions a of
              None \<Rightarrow> Inr (header_fields parseTime a)
            | Some es \<Rightarrow> extensionsLoop \<lparr>ptr = q, bytes = concat (map extension_der es)\<rparr>
                           (header_fields parseTime a))"
proof -
  define E where "E = (case extensions a of
           None \<Rightarrow> []
         | Some es \<Rightarrow> tlv CONTEXT0 (tlv SEQUENCE (concat (map extension_der es))))"
  define C where "C = tlv SEQUENCE (signers a) @
        tlv INTEGER (sequenceNumber a) @
        tlv UTCTime (effectiveDate a) @
        tlv SEQUENCE (algorithmIdentifier a) @
        tlv SEQUENCE (entries a) @ E"
  have c: "ctl_der a = tlv SEQUENCE C" by (simp add: ctl_der_def C_def E_def)
  from assms(1) have b: "hdr C + length C < 2 ^ 32"
    "hdr (signers a) + length (signers a) < 2 ^ 32"
    "hdr (sequenceNumber a) + length (sequenceNumber a) < 2 ^ 32"
    "hdr (effectiveDate a) + length (effectiveDate a) < 2 ^ 32"
    "hdr (algorithmIdentifier a) + length (algorithmIdentifier a) < 2 ^ 32"
    "hdr (entries a) + length (entries a) < 2 ^ 32"
    "length E < 2 ^ 32"
    by (simp_all add: c length_tlv_hdr C_def)
  from assms(3) obtain t where t: "parseTime (effectiveDate a) = Some t" by auto
  have hf: "header_fields parseTime a = \<lparr>SequenceNumber = der_integer_value (sequenceNumber a),
      EffectiveDate = t, CTLogsVersion = [], CTLogs = []\<rparr>"
    by (simp add: header_fields_def t)
  have opt: "ReadOptionalASN1 \<lparr>ptr = q0, bytes = E\<rparr> CONTEXT0 =
      (case extensions a of None \<Rightarrow> Some (None, \<lparr>ptr = q0, bytes = []\<rparr>)
       | Some es \<Rightarrow> Some (Some \<lparr>ptr = q0 + hdr (tlv SEQUENCE (concat (map extension_der es))),
                                  bytes = tlv SEQUENCE (concat (map extension_der es))\<rparr>,
                          \<lparr>ptr = q0 + length E, bytes = []\<rparr>))" for q0
  proof (cases "extensions a")
    case None
    then show ?thesis by (simp add: E_def ReadOptionalASN1_def PeekASN1Tag_def)
  next
    case (Some es)
    with b(7) have "hdr (tlv SEQUENCE (concat (map extension_der es))) + length (tlv SEQUENCE (concat (map extension_der es))) < 2 ^ 32"
      by (simp add: E_def length_tlv_hdr)
    then show ?thesis
      by (simp add: Some E_def ReadOptionalASN1_def tlv_last length_tlv_hdr)
  qed
  have inner: "extensions a = Some es \<Longrightarrow>
      ReadASN1 \<lparr>ptr = q0, bytes = tlv SEQUENCE (concat (map extension_der es))\<rparr> SEQUENCE
        = Some (\<lparr>ptr = q0 + hdr (concat (map extension_der es)), bytes = concat (map extension_der es)\<rparr>,
                \<lparr>ptr = q0 + (hdr (concat (map extension_der es)) + length (concat (map extension_der es))), bytes = []\<rparr>)"
    for es q0
  proof -
    assume "extensions a = Some es"
    with b(7) have "hdr (concat (map extension_der es)) + length (concat (map extension_der es)) < 2 ^ 32"
      by (simp add: E_def length_tlv_hdr)
    then show ?thesis by (simp add: tlv_last(2))
  qed
  define p1 where "p1 = p + hdr C"
  define p2 where "p2 = p + (hdr C + length C)"
  have "ReadASN1 \<lparr>ptr = p, bytes = ctl_der a\<rparr> SEQUENCE
      = Some (\<lparr>ptr = p1, bytes = C\<rparr>, \<lparr>ptr = p2, bytes = []\<rparr>)"
    by (simp add: c tlv_last(2)[OF _ b(1)] p1_def p2_def)
  note 1 = this[unfolded C_def]
  show ?thesis
    unfolding parseCTL_def 1
    apply (simp add: SkipASN1_tlv[OF _ b(2)] ReadASN1Integer_big_tlv[OF b(3)] assms(2)
        ReadASN1UTCTime_def ReadASN1_tlv[OF _ b(4)] t SkipASN1_tlv[OF _ b(5)] SkipASN1_tlv[OF _ b(6)]
        opt hf)
    apply (cases "extensions a")
     apply (simp_all add: inner hf)
    apply blast
    done
qed


lemma ParseAuthrootstl_authroot_der:
  assumes "well_formed parseTime a"
  shows "\<exists>q. ParseAuthrootstl parseTime \<lparr>ptr = p, bytes = authroot_der a @ extra\<rparr> =
           (case extensions a of
              None \<Rightarrow> Inr (header_fields parseTime a)
            | Some es \<Rightarrow>
                (case extensionsLoop \<lparr>ptr = q, bytes = concat (map extension_der es)\<rparr>
                           (header_fields parseTime a) of
                   Inl err \<Rightarrow> Inl (ErrorParsingCTL err)
                 | Inr ctl \<Rightarrow> Inr ctl))"
proof -
  from assms have len: "length (authroot_der a) < 2 ^ 32"
    and oid: "oid_arcs (innerType a) \<noteq> None"
    and int: "checkASN1Integer (sequenceNumber a)"
    and time: "parseTime (effectiveDate a) \<noteq> None"
    by (simp_all add: well_formed_def)
  from oid obtain arcs where arcs: "oid_arcs (innerType a) = Some arcs" by auto
  obtain C where c: "ctl_der a = tlv SEQUENCE C" by (simp add: ctl_der_def)
  have "length (ctl_der a) \<le> length (authroot_der a)"
    by (simp add: authroot_der_def envelope_def length_tlv_hdr)
  with len have l: "length (ctl_der a) < 2 ^ 32" by simp
  from parsePKCS7_envelope[of "outerType a" "signedDataVersion a" "digestAlgorithms a"
      "innerType a" SEQUENCE C "signerInfos a" arcs p extra] len arcs
  obtain q0 where 1: "parsePKCS7 \<lparr>ptr = p, bytes = authroot_der a @ extra\<rparr>
      = Inr (arcs, \<lparr>ptr = q0, bytes = ctl_der a\<rparr>)"
    by (auto simp: authroot_der_def c)
  from parseCTL_ctl_der[where a=a and parseTime=parseTime and p=q0, OF l int time] obtain q where
    2: "parseCTL parseTime \<lparr>ptr = q0, bytes = ctl_der a\<rparr> =
           (case extensions a of
              None \<Rightarrow> Inr (header_fields parseTime a)
            | Some es \<Rightarrow> extensionsLoop \<lparr>ptr = q, bytes = concat (map extension_der es)\<rparr>
                           (header_fields parseTime a))" by blast
  show ?thesis
    by (rule exI[of _ q]) (simp add: ParseAuthrootstl_def 1 2 split: option.splits)
qed

lemma extensions_length:
  assumes "well_formed parseTime a" "extensions a = Some es"
  shows "length (concat (map extension_der es)) < 2 ^ 32"
proof -
  have "length (concat (map extension_der es)) \<le> length (ctl_der a)"
    by (simp add: ctl_der_def assms(2) length_tlv_hdr)
  also have "\<dots> \<le> length (authroot_der a)"
    by (simp add: authroot_der_def envelope_def length_tlv_hdr)
  finally show ?thesis using assms(1) by (simp add: well_formed_def)
qed

lemma valid_input_decodes:
  assumes "valid_input parseTime a"
  shows "\<exists>ctl. ParseAuthrootstl parseTime \<lparr>ptr = p, bytes = authroot_der a @ extra\<rparr> = Inr ctl
           \<and> SequenceNumber ctl = der_integer_value (sequenceNumber a)
           \<and> EffectiveDate ctl = the (parseTime (effectiveDate a))"
proof -
  from assms have wf: "well_formed parseTime a" by (simp add: valid_input_def)
  from ParseAuthrootstl_authroot_der[OF wf, of p extra] obtain q where
    q: "ParseAuthrootstl parseTime \<lparr>ptr = p, bytes = authroot_der a @ extra\<rparr> =
           (case extensions a of
              None \<Rightarrow> Inr (header_fields parseTime a)
            | Some es \<Rightarrow>
                (case extensionsLoop \<lparr>ptr = q, bytes = concat (map extension_der es)\<rparr>
                           (header_fields parseTime a) of
                   Inl err \<Rightarrow> Inl (ErrorParsingCTL err)
                 | Inr ctl \<Rightarrow> Inr ctl))" by blast
  show ?thesis
  proof (cases "extensions a")
    case None
    then show ?thesis unfolding q by (simp add: header_fields_def)
  next
    case (Some es)
    with assms have w: "\<forall>e \<in> set es. wf_extension e" by (simp add: valid_input_def)
    from extensionsLoop_wf[OF w extensions_length[OF wf Some], of q "[]" "header_fields parseTime a"]
    obtain ctl' where "extensionsLoop \<lparr>ptr = q, bytes = concat (map extension_der es)\<rparr>
        (header_fields parseTime a) = Inr ctl'"
      "SequenceNumber ctl' = SequenceNumber (header_fields parseTime a)"
      "EffectiveDate ctl' = EffectiveDate (header_fields parseTime a)"
      by (auto simp: extensionsLoop_Nil)
    then show ?thesis unfolding q by (simp add: Some header_fields_def)
  qed
qed

lemma last_ctlogs_extension:
  assumes wf: "well_formed parseTime a"
    and ext: "extensions a = Some (pre @ e # post)"
    and pre: "\<forall>x \<in> set pre. wf_extension x"
    and e: "ctlogs_extension e versions spkis"
    and post: "\<forall>x \<in> set post. other_extension x"
  shows "\<exists>ctl. ParseAuthrootstl parseTime \<lparr>ptr = p, bytes = authroot_der a\<rparr> = Inr ctl
           \<and> CTLogsVersion ctl = map int32_of versions
           \<and> map bytes (CTLogs ctl) = map (tlv SEQUENCE) spkis
           \<and> SequenceNumber ctl = der_integer_value (sequenceNumber a)
           \<and> EffectiveDate ctl = the (parseTime (effectiveDate a))"
proof -
  from ParseAuthrootstl_authroot_der[OF wf, of p "[]"] obtain q where
    q: "ParseAuthrootstl parseTime \<lparr>ptr = p, bytes = authroot_der a\<rparr> =
           (case extensionsLoop \<lparr>ptr = q, bytes = concat (map extension_der (pre @ e # post))\<rparr>
                           (header_fields parseTime a) of
                   Inl err \<Rightarrow> Inl (ErrorParsingCTL err)
                 | Inr ctl \<Rightarrow> Inr ctl)" by (auto simp: ext)
  from extensions_length[OF wf ext]
  have l: "length (concat (map extension_der pre)) < 2 ^ 32" "length (extension_der e) < 2 ^ 32"
    "length (concat (map extension_der post)) < 2 ^ 32" by simp_all
  from extensionsLoop_wf[OF pre l(1), of q "extension_der e @ concat (map extension_der post)" "header_fields parseTime a"]
  obtain ctl1 where 1: "extensionsLoop \<lparr>ptr = q, bytes = concat (map extension_der (pre @ e # post))\<rparr>
        (header_fields parseTime a)
      = extensionsLoop \<lparr>ptr = q + length (concat (map extension_der pre)),
           bytes = extension_der e @ concat (map extension_der post)\<rparr> ctl1"
    "SequenceNumber ctl1 = SequenceNumber (header_fields parseTime a)"
    "EffectiveDate ctl1 = EffectiveDate (header_fields parseTime a)"
    by auto
  from extensionsLoop_ctlogs[OF l(2) e, of "q + length (concat (map extension_der pre))"
      "concat (map extension_der post)" ctl1] obtain q' where
    2: "extensionsLoop \<lparr>ptr = q + length (concat (map extension_der pre)),
           bytes = extension_der e @ concat (map extension_der post)\<rparr> ctl1
       = extensionsLoop \<lparr>ptr = q + length (concat (map extension_der pre)) + length (extension_der e),
           bytes = concat (map extension_der post)\<rparr>
               (ctl1\<lparr>CTLogsVersion := map int32_of versions, CTLogs := slices q' (map (tlv SEQUENCE) spkis)\<rparr>)"
    by blast
  define ctl2 where
    "ctl2 = ctl1\<lparr>CTLogsVersion := map int32_of versions, CTLogs := slices q' (map (tlv SEQUENCE) spkis)\<rparr>"
  from extensionsLoop_others[OF post l(3), of _ "[]" ctl2]
  have 3: "extensionsLoop \<lparr>ptr = q + length (concat (map extension_der pre)) + length (extension_der e),
           bytes = concat (map extension_der post)\<rparr> ctl2 = Inr ctl2"
    by (simp add: extensionsLoop_Nil)
  show ?thesis
    unfolding q 1(1) 2 ctl2_def[symmetric] 3 using 1(2,3) by (simp add: header_fields_def ctl2_def)
qed

lemma parseCTLogs_bad_version:
  assumes "\<forall>v \<in> set vpre. version_ok v" and "\<not> version_ok bad"
    and "length (ctlogs_value (vpre @ bad # vpost) cs) < 2 ^ 32"
  shows "parseCTLogs \<lparr>ptr = p, bytes = ctlogs_value (vpre @ bad # vpost) cs\<rparr>
           = Inl VersionSEQUENCEContainsMalformedINTEGER"
proof -
  define V where "V = concat (map (tlv INTEGER) vpre) @ tlv INTEGER bad @ concat (map (tlv INTEGER) vpost)"
  define K where "K = concat (map (tlv SEQUENCE) cs)"
  have c: "ctlogs_value (vpre @ bad # vpost) cs = tlv SEQUENCE (tlv SEQUENCE V @ K)"
    by (simp add: ctlogs_value_def V_def K_def)
  from assms(3) have b: "hdr (tlv SEQUENCE V @ K) + length (tlv SEQUENCE V @ K) < 2 ^ 32"
    "hdr V + length V < 2 ^ 32" "length V < 2 ^ 32"
    by (simp_all add: c length_tlv_hdr)
  have v: "versionLoop \<lparr>ptr = q, bytes = V\<rparr> [] = Inl VersionSEQUENCEContainsMalformedINTEGER" for q
    unfolding V_def
    using assms(1,2) b(3)
    by (intro versionLoop_bad) (simp_all add: version_ok_def V_def)
  show ?thesis
    unfolding c
    by (simp add: parseCTLogs_def tlv_last(2)[OF _ b(1)] ReadASN1_tlv[OF _ b(2)] v)
qed

lemma bad_version_fails:
  assumes wf: "well_formed parseTime a"
    and ext: "extensions a = Some (pre @ e # post)"
    and pre: "\<forall>x \<in> set pre. wf_extension x"
    and oid: "oid_arcs (extnID e) = Some ctlogs_oid"
    and val: "extnValue e = LogList (vpre @ bad # vpost) spkis"
    and vpre: "\<forall>v \<in> set vpre. version_ok v"
    and bad: "\<not> version_ok bad"
  shows "ParseAuthrootstl parseTime \<lparr>ptr = p, bytes = authroot_der a\<rparr>
           = Inl (ErrorParsingCTL (ErrorParsingCTLogsExtension VersionSEQUENCEContainsMalformedINTEGER))"
proof -
  from ParseAuthrootstl_authroot_der[OF wf, of p "[]"] obtain q where
    q: "ParseAuthrootstl parseTime \<lparr>ptr = p, bytes = authroot_der a\<rparr> =
           (case extensionsLoop \<lparr>ptr = q, bytes = concat (map extension_der (pre @ e # post))\<rparr>
                           (header_fields parseTime a) of
                   Inl err \<Rightarrow> Inl (ErrorParsingCTL err)
                 | Inr ctl \<Rightarrow> Inr ctl)" by (auto simp: ext)
  from extensions_length[OF wf ext]
  have l: "length (concat (map extension_der pre)) < 2 ^ 32" "length (extension_der e) < 2 ^ 32"
    by simp_all
  from extensionsLoop_wf[OF pre l(1), of q "extension_der e @ concat (map extension_der post)" "header_fields parseTime a"]
  obtain ctl1 where 1: "extensionsLoop \<lparr>ptr = q, bytes = concat (map extension_der (pre @ e # post))\<rparr>
        (header_fields parseTime a)
      = extensionsLoop \<lparr>ptr = q + length (concat (map extension_der pre)),
           bytes = extension_der e @ concat (map extension_der post)\<rparr> ctl1"
    by auto
  have "length (value_der (extnValue e)) \<le> length (extension_der e)"
    by (simp add: extension_der_def length_tlv_hdr)
  with l(2) have lv: "length (ctlogs_value (vpre @ bad # vpost) spkis) < 2 ^ 32" by (simp add: val)
  from extensionsLoop_step[OF l(2) oid, of "q + length (concat (map extension_der pre))"
      "concat (map extension_der post)" ctl1]
  have 2: "extensionsLoop \<lparr>ptr = q + length (concat (map extension_der pre)),
           bytes = extension_der e @ concat (map extension_der post)\<rparr> ctl1
       = Inl (ErrorParsingCTLogsExtension VersionSEQUENCEContainsMalformedINTEGER)"
    by (auto simp: val parseCTLogs_bad_version[OF vpre bad lv])
  show ?thesis unfolding q 1 2 by simp
qed

section \<open>Truncated buffers and trailing bytes\<close>

lemma asn1_header_take:
  assumes "asn1_header bs = Some (t, hl, n)"
  shows "asn1_header (take k bs) = (if hl \<le> k then Some (t, hl, n) else None)"
proof -
  from assms obtain tag lenByte rest where bs: "bs = tag # lenByte # rest"
    by (cases bs; cases "tl bs") (auto simp: asn1_header_def)
  show ?thesis
  proof (cases "k < 2")
    case True
    with asn1_header_bounds(1)[OF assms] show ?thesis
      by (simp add: asn1_header_short)
  next
    case False
    then obtain j where k: "k = Suc (Suc j)" by (metis less_2_cases_iff not0_implies_Suc)
    have t: "take k bs = tag # lenByte # take j rest" by (simp add: bs k)
    have "asn1_header (tag # lenByte # take j rest) = (if hl \<le> k then Some (t, hl, n) else None)"
      using assms[unfolded bs]
      by (auto simp: asn1_header_Cons2 Let_def min_def k split: if_splits)
    then show ?thesis by (simp only: t)
  qed
qed

lemma truncated_element:
  assumes "readASN1 s sk = Some (out, t, rest)" and "bytes rest = []"
    and "k < length (bytes s)"
  shows "readASN1 (s\<lparr>bytes := take k (bytes s)\<rparr>) sk' = None"
proof -
  from assms(1) obtain hl n where h: "asn1_header (bytes s) = Some (t, hl, n)"
    and n: "n \<le> length (bytes s)" and r: "rest = \<lparr>ptr = ptr s + n, bytes = drop n (bytes s)\<rparr>"
    by (auto simp: readASN1_header split: option.splits if_splits)
  from r assms(2) n have "n = length (bytes s)" by simp
  with assms(3) show ?thesis
    by (simp add: readASN1_header asn1_header_take[OF h])
qed

lemma truncated_rejected:
  assumes "ReadASN1 der SEQUENCE = Some (sequence, rest)" and "Empty rest"
    and "k < length (bytes der)"
  shows "ParseAuthrootstl parseTime (der\<lparr>bytes := take k (bytes der)\<rparr>)
           = Inl (ErrorParsingPKCS7 MalformedSEQUENCE)"
proof -
  from assms(1) obtain out t where "readASN1 der True = Some (out, t, rest)"
    by (auto simp: ReadASN1_def ReadAnyASN1_def split: option.splits if_splits)
  from truncated_element[OF this _ assms(3), of True] assms(2)
  have "readASN1 (der\<lparr>bytes := take k (bytes der)\<rparr>) True = None"
    by (simp add: Empty_def)
  then show ?thesis
    by (simp add: ParseAuthrootstl_def parsePKCS7_def ReadASN1_def ReadAnyASN1_def)
qed

lemma parsePKCS7_append:
  assumes "parsePKCS7 der = Inr r"
  shows "parsePKCS7 (der\<lparr>bytes := bytes der @ extra\<rparr>) = Inr r"
proof -
  from assms obtain sequence der1 where r1: "ReadASN1 der SEQUENCE = Some (sequence, der1)"
    by (auto simp: parsePKCS7_def split: option.splits)
  from assms show ?thesis
    by (simp add: parsePKCS7_def ReadASN1_append[OF r1] r1)
qed

lemma ParseAuthrootstl_append:
  assumes "ParseAuthrootstl parseTime der = Inr ctl"
  shows "ParseAuthrootstl parseTime (der\<lparr>bytes := bytes der @ extra\<rparr>) = Inr ctl"
proof -
  from assms obtain r where r: "parsePKCS7 der = Inr r"
    by (auto simp: ParseAuthrootstl_def split: sum.splits)
  from assms show ?thesis
    by (simp add: ParseAuthrootstl_def parsePKCS7_append[OF r] r)
qed

section \<open>The envelope decoder at another address\<close>

text \<open>\<open>shift d s\<close> is the slice \<open>s\<close> moved up by \<open>d\<close> addresses. Reading depends on
  the bytes only; the addresses of the results move along. \<open>signedData_fields\<close> names
  what \<open>parsePKCS7\<close> does from its third read on, and \<open>outcome\<close> forgets the address
  of the content returned.\<close>

definition shift :: "nat \<Rightarrow> String \<Rightarrow> String" where
  "shift d s = s\<lparr>ptr := ptr s + d\<rparr>"

lemma bytes_shift [simp]: "bytes (shift d s) = bytes s" "ptr (shift d s) = ptr s + d"
  by (simp_all add: shift_def)

lemma shift_mk [simp]: "shift d \<lparr>ptr = p, bytes = b\<rparr> = \<lparr>ptr = p + d, bytes = b\<rparr>"
  by (simp add: shift_def)

lemma readASN1_shift:
  "readASN1 (shift d s) sk =
     (case readASN1 s sk of None \<Rightarrow> None
      | Some (out, t, s') \<Rightarrow> Some (shift d out, t, shift d s'))"
  by (simp add: readASN1_header element_def split: option.splits)

lemma ReadASN1_shift:
  "ReadASN1 (shift d s) tag =
     (case ReadASN1 s tag of None \<Rightarrow> None
      | Some (out, s') \<Rightarrow> Some (shift d out, shift d s'))"
  by (simp add: ReadASN1_def ReadAnyASN1_def readASN1_shift split: option.splits)

lemma SkipASN1_shift:
  "SkipASN1 (shift d s) tag =
     (case SkipASN1 s tag of None \<Rightarrow> None | Some s' \<Rightarrow> Some (shift d s'))"
  by (simp add: SkipASN1_def ReadASN1_shift split: option.splits)

lemma ReadASN1ObjectIdentifier_shift:
  "ReadASN1ObjectIdentifier (shift d s) =
     (case ReadASN1ObjectIdentifier s of None \<Rightarrow> None
      | Some (a, s') \<Rightarrow> Some (a, shift d s'))"
  by (simp add: ReadASN1ObjectIdentifier_arcs ReadASN1_shift split: option.splits)

lemma ReadAnyASN1Element_shift:
  "ReadAnyASN1Element (shift d s) =
     (case ReadAnyASN1Element s of None \<Rightarrow> None
      | Some (out, t, s') \<Rightarrow> Some (shift d out, t, shift d s'))"
  by (simp add: ReadAnyASN1Element_def readASN1_shift)

definition signedData_fields :: "String \<Rightarrow> error + (nat list \<times> String)" where
  "signedData_fields sequence0 =
     (case ReadASN1 sequence0 CONTEXT0 of
        None \<Rightarrow> Inl MalformedSEQUENCE2
      | Some (sequence, _) \<Rightarrow>
     (case ReadASN1 sequence SEQUENCE of
        None \<Rightarrow> Inl MalformedSEQUENCE3
      | Some (sequence, _) \<Rightarrow>
     (case SkipASN1 sequence INTEGER of
        None \<Rightarrow> Inl MalformedINTEGER
      | Some sequence \<Rightarrow>
     (case SkipASN1 sequence SET of
        None \<Rightarrow> Inl MalformedSET
      | Some sequence \<Rightarrow>
     (case ReadASN1 sequence SEQUENCE of
        None \<Rightarrow> Inl MalformedSEQUENCE4
      | Some (sequence, _) \<Rightarrow>
     (case ReadASN1ObjectIdentifier sequence of
        None \<Rightarrow> Inl MalformedContentOBJECT_IDENTIFIER
      | Some (oid, sequence) \<Rightarrow>
     (case ReadASN1 sequence CONTEXT0 of
        None \<Rightarrow> Inl MalformedSEQUENCE5
      | Some (sequence, _) \<Rightarrow>
     (case ReadAnyASN1Element sequence of
        None \<Rightarrow> Inl MalformedContentElement
      | Some (content, contentTag, sequence) \<Rightarrow>
          Inr (oid, content)))))))))"

lemma parsePKCS7_fields:
  "parsePKCS7 der =
     (case ReadASN1 der SEQUENCE of
        None \<Rightarrow> Inl MalformedSEQUENCE
      | Some (sequence, der1) \<Rightarrow>
     (case SkipASN1 sequence OBJECT_IDENTIFIER of
        None \<Rightarrow> Inl MalformedOBJECT_IDENTIFIER
      | Some sequence \<Rightarrow> signedData_fields sequence))"
  by (simp add: parsePKCS7_def signedData_fields_def cong: option.case_cong)

definition outcome :: "error + (nat list \<times> String) \<Rightarrow> error + (nat list \<times> byte list)" where
  "outcome r = (case r of Inl err \<Rightarrow> Inl err | Inr (oid, content) \<Rightarrow> Inr (oid, bytes content))"

lemma signedData_fields_shift:
  "outcome (signedData_fields (shift d s)) = outcome (signedData_fields s)"
  by (simp add: signedData_fields_def outcome_def ReadASN1_shift SkipASN1_shift
      ReadASN1ObjectIdentifier_shift ReadAnyASN1Element_shift
      split: option.splits sum.splits)

lemma outer_type_skipped:
  assumes "length (tlv SEQUENCE (tlv OBJECT_IDENTIFIER oid1 @ rest)) < 2 ^ 32"
  shows "outcome (parsePKCS7 \<lparr>ptr = p, bytes = tlv SEQUENCE (tlv OBJECT_IDENTIFIER oid1 @ rest) @ extra\<rparr>)
           = outcome (signedData_fields \<lparr>ptr = 0, bytes = rest\<rparr>)"
proof -
  define X where "X = tlv OBJECT_IDENTIFIER oid1 @ rest"
  from assms have b: "hdr X + length X < 2 ^ 32" "hdr oid1 + length oid1 < 2 ^ 32"
    by (simp_all add: X_def length_tlv_hdr)
  define q where "q = p + hdr X"
  have 1: "ReadASN1 \<lparr>ptr = p, bytes = tlv SEQUENCE X @ extra\<rparr> SEQUENCE
      = Some (\<lparr>ptr = q, bytes = X\<rparr>, \<lparr>ptr = p + (hdr X + length X), bytes = extra\<rparr>)"
    by (simp add: ReadASN1_tlv[OF _ b(1)] q_def)
  have 2: "SkipASN1 \<lparr>ptr = q, bytes = X\<rparr> OBJECT_IDENTIFIER
      = Some (shift (q + (hdr oid1 + length oid1)) \<lparr>ptr = 0, bytes = rest\<rparr>)"
    unfolding X_def by (simp add: SkipASN1_tlv[OF _ b(2)])
  show ?thesis
    unfolding X_def[symmetric] parsePKCS7_fields 1
    by (simp add: 2 signedData_fields_shift del: shift_mk)
qed

section \<open>Facts about encoded object identifiers\<close>

text \<open>\<open>be128\<close> is the value the loop of \<^verbatim>\<open>readBase128Int\<close> has accumulated after the
  given bytes. The decoder reads back every subidentifier below \<open>2 ^ 31\<close>, and so every
  object identifier made of such subidentifiers.\<close>

definition be128 :: "nat \<Rightarrow> byte list \<Rightarrow> nat" where
  "be128 ret bs = foldl (\<lambda>r b. r * 128 + unat b mod 128) ret bs"

lemma be128_simps [simp]:
  "be128 ret [] = ret"
  "be128 ret (b # bs) = be128 (ret * 128 + unat b mod 128) bs"
  "be128 ret (bs @ [b]) = be128 ret bs * 128 + unat b mod 128"
  by (simp_all add: be128_def)

lemma be128_ge: "ret \<le> be128 ret bs"
proof (induction bs arbitrary: ret)
  case Nil
  show ?case by simp
next
  case (Cons b bs)
  have "ret \<le> ret * 128 + unat b mod 128" by simp
  also have "\<dots> \<le> be128 (ret * 128 + unat b mod 128) bs" by (rule Cons.IH)
  finally show ?case by simp
qed

lemma unat_low: "d < 128 \<Longrightarrow> unat (word_of_nat d :: byte) = d"
  by (simp add: unat_of_nat)

lemma unat_high: "d < 128 \<Longrightarrow> unat (word_of_nat d + 128 :: byte) = d + 128"
proof -
  assume d: "d < 128"
  have "word_of_nat d + 128 = (word_of_nat (d + 128) :: byte)" by simp
  moreover have "unat (word_of_nat (d + 128) :: byte) = d + 128"
    using d by (simp only: unat_of_nat) simp
  ultimately show ?thesis by simp
qed

lemma readBase128Int_loop_bytes:
  assumes "\<forall>b \<in> set bs. 128 \<le> unat b" "i + length bs < 5" "be128 ret bs < 2 ^ 24"
    and "i = 0 \<longrightarrow> bs \<noteq> [] \<longrightarrow> hd bs \<noteq> 0x80" "unat l < 128"
  shows "readBase128Int_loop i ret (bs @ l # s) = Some (be128 ret bs * 128 + unat l, s)"
  using assms
proof (induction bs arbitrary: i ret)
  case Nil
  from Nil(5) have "l \<noteq> 0x80" by auto
  with Nil show ?case
    by (simp add: byte_and7f byte_and80)
next
  case (Cons b bs)
  have r: "ret < 2 ^ 24"
    using be128_ge[of "ret * 128 + unat b mod 128" bs] Cons.prems(3) by simp
  have b: "b AND 0x80 \<noteq> 0" using Cons.prems(1) by (simp add: byte_and80)
  have "readBase128Int_loop (i + 1) (ret * 128 + unat b mod 128) (bs @ l # s) =
          Some (be128 (ret * 128 + unat b mod 128) bs * 128 + unat l, s)"
    using Cons.prems by (intro Cons.IH) simp_all
  with r b Cons.prems(2,4) show ?case
    by (auto simp: byte_and7f)
qed

lemma base128_high_bytes: "b \<in> set (base128_high m) \<Longrightarrow> 128 \<le> unat b"
proof (induction m rule: base128_high.induct)
  case (1 m)
  show ?case
  proof (cases "m = 0")
    case True
    with "1.prems" show ?thesis by (simp add: base128_high.simps)
  next
    case False
    with "1.prems" have "b \<in> set (base128_high (m div 128)) \<or> b = word_of_nat (m mod 128 + 128)"
      by (subst (asm) base128_high.simps) auto
    with "1.IH"[OF False] show ?thesis by (auto simp: unat_high)
  qed
qed

lemma base128_high_length: "m < 128 ^ k \<Longrightarrow> length (base128_high m) \<le> k"
proof (induction k arbitrary: m)
  case 0
  then show ?case by (simp add: base128_high.simps)
next
  case (Suc k)
  show ?case
  proof (cases "m = 0")
    case True
    then show ?thesis by (simp add: base128_high.simps)
  next
    case False
    from Suc.prems have "m div 128 < 128 ^ k"
      by (simp add: less_mult_imp_div_less mult.commute)
    from Suc.IH[OF this] False show ?thesis
      by (subst base128_high.simps) simp
  qed
qed

lemma base128_high_value: "be128 0 (base128_high m) = m"
proof (induction m rule: base128_high.induct)
  case (1 m)
  show ?case
  proof (cases "m = 0")
    case True
    then show ?thesis by (simp add: base128_high.simps)
  next
    case False
    with "1.IH" show ?thesis
      by (subst base128_high.simps) (simp add: unat_high)
  qed
qed

lemma base128_high_Nil: "base128_high m = [] \<longleftrightarrow> m = 0"
  by (subst base128_high.simps) simp

lemma base128_high_hd: "m \<noteq> 0 \<Longrightarrow> hd (base128_high m) \<noteq> 0x80"
proof (induction m rule: base128_high.induct)
  case (1 m)
  show ?case
  proof (cases "m div 128 = 0")
    case True
    with "1.prems" have m: "m < 128" "m mod 128 = m"
      by (simp_all add: div_eq_0_iff)
    have "unat (word_of_nat m + 128 :: byte) \<noteq> unat (0x80 :: byte)"
      using m(1) "1.prems" by (simp add: unat_high)
    then have "(word_of_nat m + 128 :: byte) \<noteq> 0x80" by auto
    with True "1.prems" m show ?thesis
      by (subst base128_high.simps) (simp add: base128_high_Nil[THEN iffD2])
  next
    case False
    with "1.IH"[OF "1.prems" False] "1.prems" show ?thesis
      by (subst base128_high.simps) (simp add: base128_high_Nil)
  qed
qed

lemma readBase128Int_base128:
  assumes "n < 2 ^ 31"
  shows "readBase128Int (base128 n @ s) = Some (n, s)"
proof -
  from assms have d: "n div 128 < 2 ^ 24" by simp
  then have "n div 128 < 128 ^ 4" by simp
  from base128_high_length[OF this] have l: "0 + length (base128_high (n div 128)) < 5" by simp
  have "readBase128Int_loop 0 0 (base128_high (n div 128) @ word_of_nat (n mod 128) # s) =
          Some (be128 0 (base128_high (n div 128)) * 128 + unat (word_of_nat (n mod 128) :: byte), s)"
    using l d by (intro readBase128Int_loop_bytes)
      (simp_all add: base128_high_bytes base128_high_value base128_high_Nil base128_high_hd unat_low)
  then show ?thesis
    by (simp add: readBase128Int_def base128_def base128_high_value unat_low)
qed

lemma base128_not_Nil: "base128 n \<noteq> []"
  by (simp add: base128_def)

lemma readArcs_base128:
  assumes "\<forall>v \<in> set vs. v < 2 ^ 31"
  shows "readArcs (concat (map base128 vs)) = Some vs"
  using assms
proof (induction vs)
  case Nil
  show ?case by (simp add: readArcs.simps)
next
  case (Cons v vs)
  then have "readBase128Int (base128 v @ concat (map base128 vs)) = Some (v, concat (map base128 vs))"
    by (intro readBase128Int_base128) simp
  with Cons show ?case
    by (subst readArcs.simps) (simp add: base128_not_Nil)
qed

lemma oid_arcs_oid_der:
  assumes "oid_ok arcs" "\<forall>v \<in> set (subidentifiers arcs). v < 2 ^ 31"
  shows "oid_arcs (oid_der arcs) = Some arcs"
proof -
  from assms(1) obtain a b rest where arcs: "arcs = a # b # rest"
    and a: "a \<le> 2" "a < 2 \<longrightarrow> b < 40"
    by (auto simp: oid_ok_def split: list.splits)
  from assms(2) have v: "40 * a + b < 2 ^ 31" and r: "\<forall>v \<in> set rest. v < 2 ^ 31"
    by (simp_all add: arcs subidentifiers_def)
  have c: "(if 40 * a + b < 80 then [(40 * a + b) div 40, (40 * a + b) mod 40]
            else [2, 40 * a + b - 80]) = [a, b]"
  proof (cases "a < 2")
    case True
    with a show ?thesis by simp
  next
    case False
    with a have "a = 2" by simp
    then show ?thesis by simp
  qed
  from readBase128Int_base128[OF v] readArcs_base128[OF r] c show ?thesis
    by (simp add: oid_arcs_def oid_der_def subidentifiers_def arcs base128_not_Nil)
qed

lemma small_other_extension_other:
  "small_other_extension e arcs \<Longrightarrow> other_extension e"
  by (simp add: small_other_extension_def other_extension_def oid_arcs_oid_der)

lemma ParseAuthrootstl_others:
  assumes "well_formed parseTime a"
    and "case extensions a of None \<Rightarrow> True | Some es \<Rightarrow> \<forall>e \<in> set es. other_extension e"
  shows "ParseAuthrootstl parseTime \<lparr>ptr = p, bytes = authroot_der a\<rparr> =
           Inr (header_fields parseTime a)"
proof -
  from ParseAuthrootstl_authroot_der[OF assms(1), of p "[]"] obtain q where
    q: "ParseAuthrootstl parseTime \<lparr>ptr = p, bytes = authroot_der a\<rparr> =
           (case extensions a of
              None \<Rightarrow> Inr (header_fields parseTime a)
            | Some es \<Rightarrow>
                (case extensionsLoop \<lparr>ptr = q, bytes = concat (map extension_der es)\<rparr>
                           (header_fields parseTime a) of
                   Inl err \<Rightarrow> Inl (ErrorParsingCTL err)
                 | Inr ctl \<Rightarrow> Inr ctl))" by auto
  show ?thesis
  proof (cases "extensions a")
    case None
    then show ?thesis unfolding q by simp
  next
    case (Some es)
    with assms(2) have es: "\<forall>e \<in> set es. other_extension e" by simp
    from extensionsLoop_others[OF es extensions_length[OF assms(1) Some], of q "[]" "header_fields parseTime a"]
    show ?thesis unfolding q by (simp add: Some extensionsLoop_Nil)
  qed
qed

lemma list_all2_small_other:
  assumes "list_all2 small_other_extension es oids" "e \<in> set es"
  shows "other_extension e"
proof -
  from assms obtain arcs where "small_other_extension e arcs"
    by (auto simp: list_all2_conv_all_nth in_set_conv_nth)
  then show ?thesis by (rule small_other_extension_other)
qed
section \<open>Facts about sub-slices\<close>

text \<open>Every read of the cursor returns sub-slices of the buffer it reads, and the
  decoder puts nothing else into \<open>CTLogs\<close>.\<close>

lemma subslice_refl [simp]: "subslice s s"
  by (simp add: subslice_def)

lemma subslice_trans:
  assumes "subslice x y" "subslice y z"
  shows "subslice x z"
proof -
  define a where "a = ptr x - ptr y"
  define b where "b = ptr y - ptr z"
  from assms have px: "ptr x = ptr y + a" and py: "ptr y = ptr z + b"
    and lx: "a + length (bytes x) \<le> length (bytes y)" and ly: "b + length (bytes y) \<le> length (bytes z)"
    and bx: "bytes x = take (length (bytes x)) (drop a (bytes y))"
    and by': "bytes y = take (length (bytes y)) (drop b (bytes z))"
    by (auto simp: subslice_def a_def b_def)
  have "bytes x = take (length (bytes x)) (drop a (take (length (bytes y)) (drop b (bytes z))))"
    using bx by' by simp
  also have "\<dots> = take (length (bytes x)) (drop (a + b) (bytes z))"
    using lx by (simp add: drop_take min_def)
  finally have "bytes x = take (length (bytes x)) (drop (a + b) (bytes z))" .
  moreover have "ptr x - ptr z = a + b" using px py by simp
  ultimately show ?thesis
    using px py lx ly by (simp add: subslice_def add.commute)
qed

lemma readASN1_subslice:
  assumes "readASN1 s sk = Some (out, t, s')"
  shows "subslice out s" "subslice s' s"
proof -
  from assms obtain hl n where h: "asn1_header (bytes s) = Some (t, hl, n)"
    and n: "n \<le> length (bytes s)" and o: "out = element s sk hl n"
    and s': "s' = \<lparr>ptr = ptr s + n, bytes = drop n (bytes s)\<rparr>"
    by (auto simp: readASN1_header split: option.splits if_splits)
  from asn1_header_bounds[OF h] have hl: "hl \<le> n" by simp
  show "subslice out s"
    using n hl by (simp add: o element_def subslice_def drop_take min_def)
  show "subslice s' s"
    using n by (simp add: s' subslice_def)
qed


lemma ReadASN1_subslice:
  assumes "ReadASN1 s tag = Some (out, s')"
  shows "subslice out s" "subslice s' s"
  using assms
  by (auto simp: ReadASN1_def ReadAnyASN1_def split: option.splits if_splits
      dest: readASN1_subslice)

lemma ReadASN1Element_subslice:
  assumes "ReadASN1Element s tag = Some (out, s')"
  shows "subslice out s" "subslice s' s"
  using assms
  by (auto simp: ReadASN1Element_def ReadAnyASN1Element_def split: option.splits if_splits
      dest: readASN1_subslice)

lemma ReadAnyASN1Element_subslice:
  assumes "ReadAnyASN1Element s = Some (out, t, s')"
  shows "subslice out s" "subslice s' s"
  using assms by (auto simp: ReadAnyASN1Element_def dest: readASN1_subslice)

lemma SkipASN1_subslice: "SkipASN1 s tag = Some s' \<Longrightarrow> subslice s' s"
  by (auto simp: SkipASN1_def split: option.splits dest: ReadASN1_subslice)

lemma SkipOptionalASN1_subslice: "SkipOptionalASN1 s tag = Some s' \<Longrightarrow> subslice s' s"
  by (auto simp: SkipOptionalASN1_def split: option.splits if_splits dest: ReadASN1_subslice)

lemma ReadOptionalASN1_subslice:
  assumes "ReadOptionalASN1 s tag = Some (Some out, s')"
  shows "subslice out s"
  using assms
  by (auto simp: ReadOptionalASN1_def split: option.splits if_splits dest: ReadASN1_subslice)

lemma ReadASN1ObjectIdentifier_subslice:
  "ReadASN1ObjectIdentifier s = Some (a, s') \<Longrightarrow> subslice s' s"
  by (auto simp: ReadASN1ObjectIdentifier_arcs split: option.splits dest: ReadASN1_subslice)

lemma ReadASN1Element_nonempty:
  assumes "ReadASN1Element s tag = Some (out, s')"
  shows "bytes out \<noteq> []"
proof -
  from assms obtain t hl n where h: "asn1_header (bytes s) = Some (t, hl, n)"
    and n: "n \<le> length (bytes s)" and o: "out = element s False hl n"
    by (auto simp: ReadASN1Element_def ReadAnyASN1Element_def readASN1_header
        split: option.splits if_splits)
  from asn1_header_bounds[OF h] n o show ?thesis
    by (auto simp: element_def)
qed

lemma pubkeysLoop_subslice:
  assumes "pubkeysLoop s pubkeys = Inr ks" "k \<in> set ks"
  shows "k \<in> set pubkeys \<or> (subslice k s \<and> bytes k \<noteq> [])"
  using assms
proof (induction s pubkeys rule: pubkeysLoop.induct)
  case (1 sequence pubkeys)
  show ?case
  proof (cases "Empty sequence")
    case True
    with "1.prems" show ?thesis by (simp add: pubkeysLoop.simps)
  next
    case False
    with "1.prems"(1) obtain spki sequence' where
      r: "ReadASN1Element sequence SEQUENCE = Some (spki, sequence')"
      and l: "pubkeysLoop sequence' (pubkeys @ [spki]) = Inr ks"
      by (subst (asm) pubkeysLoop.simps) (auto split: option.splits)
    from "1.IH"[OF False r refl l "1.prems"(2)]
    have "k \<in> set (pubkeys @ [spki]) \<or> (subslice k sequence' \<and> bytes k \<noteq> [])" .
    with ReadASN1Element_subslice[OF r] ReadASN1Element_nonempty[OF r] show ?thesis
      by (auto intro: subslice_trans)
  qed
qed

lemma parseCTLogs_subslice:
  assumes "parseCTLogs der = Inr (version, ks)" "k \<in> set ks"
  shows "subslice k der \<and> bytes k \<noteq> []"
proof -
  from assms(1) obtain sequence der' versionSequence sequence2 where
    r1: "ReadASN1 der SEQUENCE = Some (sequence, der')"
    and r2: "ReadASN1 sequence SEQUENCE = Some (versionSequence, sequence2)"
    and l: "pubkeysLoop sequence2 [] = Inr ks"
    by (auto simp: parseCTLogs_def split: option.splits if_splits sum.splits)
  from pubkeysLoop_subslice[OF l assms(2)]
  have "subslice k sequence2" and ne: "bytes k \<noteq> []" by simp_all
  with ReadASN1_subslice(2)[OF r2] ReadASN1_subslice(1)[OF r1] have "subslice k der"
    by (blast intro: subslice_trans)
  with ne show ?thesis by simp
qed

lemma extensionsLoop_subslice:
  assumes "extensionsLoop s ctl = Inr ctl'" "k \<in> set (CTLogs ctl')"
  shows "k \<in> set (CTLogs ctl) \<or> (subslice k s \<and> bytes k \<noteq> [])"
  using assms
proof (induction s ctl rule: extensionsLoop.induct)
  case (1 extensions ctl)
  show ?case
  proof (cases "Empty extensions")
    case True
    with "1.prems" show ?thesis by (simp add: extensionsLoop.simps)
  next
    case False
    from "1.prems"(1) False obtain extension extensions' id' extension1 extension2 val extension3 where
      r1: "ReadASN1 extensions SEQUENCE = Some (extension, extensions')"
      and r2: "ReadASN1ObjectIdentifier extension = Some (id', extension1)"
      and r3: "SkipOptionalASN1 extension1 BOOLEAN = Some extension2"
      and r4: "ReadASN1 extension2 OCTET_STRING = Some (val, extension3)"
      by (subst (asm) extensionsLoop.simps) (auto split: option.splits)
    have v: "subslice val extensions"
      using ReadASN1_subslice(1)[OF r4] SkipOptionalASN1_subslice[OF r3]
        ReadASN1ObjectIdentifier_subslice[OF r2] ReadASN1_subslice(1)[OF r1]
      by (blast intro: subslice_trans)
    have e': "subslice extensions' extensions" by (rule ReadASN1_subslice(2)[OF r1])
    show ?thesis
    proof (cases "id' = [1, 3, 6, 1, 4, 1, 311, 10, 3, 52]")
      case True
      with "1.prems"(1) False r1 r2 r3 r4 obtain version pubkeys where
        p: "parseCTLogs val = Inr (version, pubkeys)"
        and l: "extensionsLoop extensions' (ctl\<lparr>CTLogsVersion := version, CTLogs := pubkeys\<rparr>) = Inr ctl'"
        by (subst (asm) extensionsLoop.simps) (auto split: sum.splits)
      from "1.IH"(1)[OF False r1 refl r2 refl r3 r4 refl True p refl l "1.prems"(2)]
      have "k \<in> set pubkeys \<or> (subslice k extensions' \<and> bytes k \<noteq> [])" by simp
      with parseCTLogs_subslice[OF p] v e' show ?thesis
        by (blast intro: subslice_trans)
    next
      case ne: False
      with "1.prems"(1) False r1 r2 r3 r4 have
        l: "extensionsLoop extensions' ctl = Inr ctl'"
        by (subst (asm) extensionsLoop.simps) auto
      from "1.IH"(2)[OF False r1 refl r2 refl r3 r4 refl ne l "1.prems"(2)]
      have "k \<in> set (CTLogs ctl) \<or> (subslice k extensions' \<and> bytes k \<noteq> [])" by simp
      with e' show ?thesis by (blast intro: subslice_trans)
    qed
  qed
qed

lemma ReadASN1Integer_big_subslice:
  "ReadASN1Integer_big s = Some (n, s') \<Longrightarrow> subslice s' s"
  by (auto simp: ReadASN1Integer_big_def readASN1BigInt_def
      split: option.splits if_splits list.splits dest: ReadASN1_subslice)

lemma ReadASN1UTCTime_subslice:
  "ReadASN1UTCTime parseTime s = Some (t, s') \<Longrightarrow> subslice s' s"
  by (auto simp: ReadASN1UTCTime_def split: option.splits dest: ReadASN1_subslice)

lemma parseCTL_subslice:
  assumes "parseCTL parseTime der = Inr ctl" "k \<in> set (CTLogs ctl)"
  shows "subslice k der \<and> bytes k \<noteq> []"
proof -
  from assms(1) obtain s0 der' s1 n s2 t s3 s4 s5 hasExtensions s6 where
    r0: "ReadASN1 der SEQUENCE = Some (s0, der')"
    and r1: "SkipASN1 s0 SEQUENCE = Some s1"
    and r2: "ReadASN1Integer_big s1 = Some (n, s2)"
    and r3: "ReadASN1UTCTime parseTime s2 = Some (t, s3)"
    and r4: "SkipASN1 s3 SEQUENCE = Some s4"
    and r5: "SkipASN1 s4 SEQUENCE = Some s5"
    and r6: "ReadOptionalASN1 s5 CONTEXT0 = Some (hasExtensions, s6)"
    and rest: "(case hasExtensions of
             None \<Rightarrow> Inr \<lparr>SequenceNumber = n, EffectiveDate = t, CTLogsVersion = [], CTLogs = []\<rparr>
           | Some exts \<Rightarrow>
               (case ReadASN1 exts SEQUENCE of
                  None \<Rightarrow> Inl MalformedInnerExtensionsSEQUENCE
                | Some (exts, _) \<Rightarrow> extensionsLoop exts
                    \<lparr>SequenceNumber = n, EffectiveDate = t, CTLogsVersion = [], CTLogs = []\<rparr>)) = Inr ctl"
    by (auto simp: parseCTL_def Let_def split: option.splits if_splits)
  have s5: "subslice s5 der"
    using SkipASN1_subslice[OF r5] SkipASN1_subslice[OF r4] ReadASN1UTCTime_subslice[OF r3]
      ReadASN1Integer_big_subslice[OF r2] SkipASN1_subslice[OF r1] ReadASN1_subslice(1)[OF r0]
    by (blast intro: subslice_trans)
  show ?thesis
  proof (cases hasExtensions)
    case None
    with rest assms(2) show ?thesis by auto
  next
    case (Some exts)
    with rest obtain e2 e3 where
      r7: "ReadASN1 exts SEQUENCE = Some (e2, e3)"
      and l: "extensionsLoop e2
                \<lparr>SequenceNumber = n, EffectiveDate = t, CTLogsVersion = [], CTLogs = []\<rparr> = Inr ctl"
      by (auto split: option.splits)
    from extensionsLoop_subslice[OF l assms(2)]
    have "subslice k e2" and ne: "bytes k \<noteq> []" by simp_all
    with ReadASN1_subslice(1)[OF r7] ReadOptionalASN1_subslice[OF r6[unfolded Some]] s5
    have "subslice k der" by (blast intro: subslice_trans)
    with ne show ?thesis by simp
  qed
qed

lemma parsePKCS7_subslice:
  assumes "parsePKCS7 der = Inr (oid, content)"
  shows "subslice content der"
proof -
  from assms obtain s0 d0 s1 s2 d2 s3 d3 s4 s5 s6 d6 s7 s8 d8 t d9 where
    r: "ReadASN1 der SEQUENCE = Some (s0, d0)"
       "SkipASN1 s0 OBJECT_IDENTIFIER = Some s1"
       "ReadASN1 s1 CONTEXT0 = Some (s2, d2)"
       "ReadASN1 s2 SEQUENCE = Some (s3, d3)"
       "SkipASN1 s3 INTEGER = Some s4"
       "SkipASN1 s4 SET = Some s5"
       "ReadASN1 s5 SEQUENCE = Some (s6, d6)"
       "ReadASN1ObjectIdentifier s6 = Some (oid, s7)"
       "ReadASN1 s7 CONTEXT0 = Some (s8, d8)"
       "ReadAnyASN1Element s8 = Some (content, t, d9)"
    by (auto simp: parsePKCS7_def split: option.splits)
  have "subslice s2 der"
    using ReadASN1_subslice(1)[OF r(3)] SkipASN1_subslice[OF r(2)] ReadASN1_subslice(1)[OF r(1)]
    by (blast intro: subslice_trans)
  then have "subslice s5 der"
    using SkipASN1_subslice[OF r(6)] SkipASN1_subslice[OF r(5)] ReadASN1_subslice(1)[OF r(4)]
    by (blast intro: subslice_trans)
  then have "subslice s8 der"
    using ReadASN1_subslice(1)[OF r(9)] ReadASN1ObjectIdentifier_subslice[OF r(8)]
      ReadASN1_subslice(1)[OF r(7)]
    by (blast intro: subslice_trans)
  with ReadAnyASN1Element_subslice(1)[OF r(10)] show ?thesis
    by (blast intro: subslice_trans)
qed

lemma ParseAuthrootstl_subslice:
  assumes "ParseAuthrootstl parseTime der = Inr ctl" "k \<in> set (CTLogs ctl)"
  shows "subslice k der \<and> bytes k \<noteq> []"
proof -
  from assms(1) obtain oid content where p: "parsePKCS7 der = Inr (oid, content)"
    and c: "parseCTL parseTime content = Inr ctl"
    by (auto simp: ParseAuthrootstl_def split: sum.splits)
  from parseCTL_subslice[OF c assms(2)] parsePKCS7_subslice[OF p]
  show ?thesis by (blast intro: subslice_trans)
qed

lemma load_window:
  assumes "a + l \<le> n"
  shows "take l (drop a (load m p n)) = load m (p + a) l"
proof -
  have "drop a [p ..< p + n] = [p + a ..< p + n]" by simp
  moreover have "take l [p + a ..< p + n] = [p + a ..< p + a + l]"
    using assms by simp
  ultimately show ?thesis
    by (simp add: load_def drop_map take_map)
qed

lemma subslice_view:
  assumes "subslice k (view m p n)"
  shows "p \<le> ptr k \<and> ptr k + length (bytes k) \<le> p + n \<and> bytes k = reload m k"
proof -
  from assms have a: "p \<le> ptr k" "ptr k + length (bytes k) \<le> p + n"
    and b: "bytes k = take (length (bytes k)) (drop (ptr k - p) (load m p n))"
    by (simp_all add: subslice_def view_def load_def)
  from a have "ptr k - p + length (bytes k) \<le> n" by simp
  from load_window[OF this, of m p] a b show ?thesis
    by (simp add: reload_def)
qed

lemma load_memory_of: "load (memory_of bs) 0 (length bs) = bs"
  by (rule nth_equalityI) (simp_all add: load_def memory_of_def)
section \<open>Example inputs\<close>

text \<open>A UTCTime text, \<^verbatim>\<open>250101000000Z\<close>, and the smallest CTL body the decoder
  accepts: empty signers, sequence number 1, the date, an empty algorithm identifier and
  no entries. In the examples the time parameter is \<open>Some\<close>: the time is the text
  itself.\<close>

definition utc0 :: "byte list" where
  "utc0 = [0x32, 0x35, 0x30, 0x31, 0x30, 0x31, 0x30, 0x30, 0x30, 0x30, 0x30, 0x30, 0x5a]"

definition ctl0 :: "byte list" where
  "ctl0 = tlv SEQUENCE (tlv SEQUENCE [] @ tlv INTEGER [0x01] @ tlv UTCTime utc0
            @ tlv SEQUENCE [] @ tlv SEQUENCE [])"

text \<open>The object identifiers of SignedData (1.2.840.113549.1.7.2), of a certificate
  trust list (1.3.6.1.4.1.311.10.1) and of the CT-log extension
  (1.3.6.1.4.1.311.10.3.52); the contents of two public-key elements, which with their
  two header bytes are 10 and 20 bytes long; the CT-log extension with one version
  integer 1 and these two keys; and an input with sequence number 1 and the given
  extensions.\<close>

definition signedData_oid :: "byte list" where
  "signedData_oid = [0x2a, 0x86, 0x48, 0x86, 0xf7, 0x0d, 0x01, 0x07, 0x02]"

definition ctl_oid :: "byte list" where
  "ctl_oid = [0x2b, 0x06, 0x01, 0x04, 0x01, 0x82, 0x37, 0x0a, 0x01]"

definition ctlogs_oid_der :: "byte list" where
  "ctlogs_oid_der = [0x2b, 0x06, 0x01, 0x04, 0x01, 0x82, 0x37, 0x0a, 0x03, 0x34]"

definition spki10 :: "byte list" where
  "spki10 = [0xa0, 0xa1, 0xa2, 0xa3, 0xa4, 0xa5, 0xa6, 0xa7]"

definition spki20 :: "byte list" where
  "spki20 = [0xb0, 0xb1, 0xb2, 0xb3, 0xb4, 0xb5, 0xb6, 0xb7, 0xb8, 0xb9,
             0xba, 0xbb, 0xbc, 0xbd, 0xbe, 0xbf, 0xc0, 0xc1]"

definition example_logs :: Extension where
  "example_logs = \<lparr>extnID = ctlogs_oid_der, critical = None,
                    extnValue = LogList [[0x01]] [spki10, spki20]\<rparr>"

definition example_input :: "Extension list option \<Rightarrow> Authroot" where
  "example_input es =
     \<lparr>outerType = signedData_oid, signedDataVersion = [0x01], digestAlgorithms = [],
      innerType = ctl_oid, signerInfos = tlv SET [],
      signers = [], sequenceNumber = [0x01], effectiveDate = utc0,
      algorithmIdentifier = [], entries = [], extensions = es\<rparr>"

text \<open>An extension with another identifier (that of a certificate trust list), marked
  critical, with two bytes as its value.\<close>

definition example_other :: Extension where
  "example_other = \<lparr>extnID = ctl_oid, critical = Some [0xff], extnValue = Bytes [0x05, 0x00]\<rparr>"

text \<open>An envelope whose inner \<open>[0]\<close> wrapper holds the smallest CTL body and, after
  it, one more element (an OCTET STRING of two bytes).\<close>

definition junk_inside :: "byte list" where
  "junk_inside =
     tlv SEQUENCE
       (tlv OBJECT_IDENTIFIER signedData_oid @
        tlv CONTEXT0
          (tlv SEQUENCE
             (tlv INTEGER [0x01] @
              tlv SET [] @
              tlv SEQUENCE
                (tlv OBJECT_IDENTIFIER ctl_oid @
                 tlv CONTEXT0 (ctl0 @ tlv OCTET_STRING [0xde, 0xad])))))"

text \<open>What follows the outer content type in an envelope around the smallest CTL
  body: the \<open>[0]\<close> wrapper with the SignedData SEQUENCE.\<close>

definition example_signedData :: "byte list" where
  "example_signedData =
     tlv CONTEXT0
       (tlv SEQUENCE
          (tlv INTEGER [0x01] @
           tlv SET [] @
           tlv SEQUENCE (tlv OBJECT_IDENTIFIER ctl_oid @ tlv CONTEXT0 ctl0)))"

text \<open>An extension whose identifier is 1.3.2147483648 in DER: the subidentifier 43 for
  the arcs 1 and 3, then \<open>2 ^ 31\<close> in five base-128 bytes.\<close>

definition example_large_arc :: Extension where
  "example_large_arc = \<lparr>extnID = [0x2b, 0x88, 0x80, 0x80, 0x80, 0x00], critical = None,
                         extnValue = Bytes [0x05, 0x00]\<rparr>"

text \<open>The encoded input whose only extension is the CT-log extension with the two keys;
  it is 122 bytes long.\<close>

definition example_der :: "byte list" where
  "example_der = authroot_der (example_input (Some [example_logs]))"
section \<open>Facts about the examples\<close>

lemma length_example_der: "length example_der = 122"
  by code_simp

lemma view_example: "view (memory_of example_der) 0 122 = \<lparr>ptr = 0, bytes = example_der\<rparr>"
  using load_memory_of[of example_der] by (simp add: view_def length_example_der)

lemma ParseAuthrootstl_example:
  "ParseAuthrootstl Some \<lparr>ptr = 0, bytes = example_der\<rparr> =
     Inr \<lparr>SequenceNumber = 1, EffectiveDate = utc0, CTLogsVersion = [1],
          CTLogs = [\<lparr>ptr = 90, bytes = tlv SEQUENCE spki10\<rparr>,
                    \<lparr>ptr = 100, bytes = tlv SEQUENCE spki20\<rparr>]\<rparr>"
  by code_simp
section \<open>Truncated inputs (C1)\<close>

text \<open>C1. Take a valid input: a buffer that the decoder accepts and that is one DER
  element, its outer SEQUENCE reaching to the last byte. Cut to any shorter length
  \<open>k\<close>, it is rejected with "malformed SEQUENCE" inside "error parsing PKCS#7": no
  CTL is returned, neither whole nor in part. (The declared length of the outer
  SEQUENCE, when the cut leaves enough of the header to read it, exceeds what is left
  of the buffer.)\<close>

theorem truncated_input_rejected:
  assumes "ParseAuthrootstl parseTime der = Inr ctl"
    and "ReadASN1 der SEQUENCE = Some (sequence, rest)" and "Empty rest"
    and "k < length (bytes der)"
  shows "ParseAuthrootstl parseTime (der\<lparr>bytes := take k (bytes der)\<rparr>)
           = Inl (ErrorParsingPKCS7 MalformedSEQUENCE)"
  using truncated_rejected[OF assms(2-4)] .

text \<open>The witness cuts the example input of 122 bytes after its 121st byte.\<close>

theorem truncated_input_rejected_witness:
  "ParseAuthrootstl Some \<lparr>ptr = 0, bytes = authroot_der (example_input (Some [example_logs]))\<rparr>
     = Inr \<lparr>SequenceNumber = 1, EffectiveDate = utc0, CTLogsVersion = [1],
            CTLogs = [\<lparr>ptr = 90, bytes = tlv SEQUENCE spki10\<rparr>,
                      \<lparr>ptr = 100, bytes = tlv SEQUENCE spki20\<rparr>]\<rparr>
   \<and> length (authroot_der (example_input (Some [example_logs]))) = 122
   \<and> ParseAuthrootstl Some
         \<lparr>ptr = 0, bytes = take 121 (authroot_der (example_input (Some [example_logs])))\<rparr>
     = Inl (ErrorParsingPKCS7 MalformedSEQUENCE)"
proof -
  define der where "der = \<lparr>ptr = 0, bytes = authroot_der (example_input (Some [example_logs]))\<rparr>"
  have p: "ParseAuthrootstl Some der
     = Inr \<lparr>SequenceNumber = 1, EffectiveDate = utc0, CTLogsVersion = [1],
            CTLogs = [\<lparr>ptr = 90, bytes = tlv SEQUENCE spki10\<rparr>,
                      \<lparr>ptr = 100, bytes = tlv SEQUENCE spki20\<rparr>]\<rparr>"
    unfolding der_def by code_simp
  have r: "ReadASN1 der SEQUENCE
     = Some (\<lparr>ptr = 2, bytes = drop 2 (bytes der)\<rparr>, \<lparr>ptr = 122, bytes = []\<rparr>)"
    unfolding der_def by code_simp
  have e: "Empty \<lparr>ptr = 122, bytes = []\<rparr>" by (simp add: Empty_def)
  have l: "length (bytes der) = 122" unfolding der_def by code_simp
  then have k: "121 < length (bytes der)" by simp
  from truncated_input_rejected[OF p r e k] p l show ?thesis
    by (simp add: der_def)
qed

section \<open>The sequence number (C2)\<close>

text \<open>C2. Every valid input decodes, and the \<open>SequenceNumber\<close> of the CTL returned is
  exactly the integer that the contents of the sequence-number INTEGER encode in
  two's complement, whatever their length: nothing is cut to a machine word. (In the
  example the INTEGER has nine content bytes and the value \<open>2 ^ 64\<close>.)\<close>

theorem sequence_number_exact:
  assumes "valid_input parseTime a"
  shows "\<exists>ctl. ParseAuthrootstl parseTime \<lparr>ptr = p, bytes = authroot_der a\<rparr> = Inr ctl
           \<and> SequenceNumber ctl = der_integer_value (sequenceNumber a)"
  using valid_input_decodes[OF assms, of p "[]"] by auto

theorem sequence_number_exact_witness:
  "\<exists>ctl. ParseAuthrootstl Some
            \<lparr>ptr = 0, bytes = authroot_der
               ((example_input None)\<lparr>sequenceNumber := [0x01, 0, 0, 0, 0, 0, 0, 0, 0]\<rparr>)\<rparr> = Inr ctl
         \<and> SequenceNumber ctl = 18446744073709551616"
proof -
  define a where "a = (example_input None)\<lparr>sequenceNumber := [0x01, 0, 0, 0, 0, 0, 0, 0, 0]\<rparr>"
  have v: "valid_input Some a" unfolding a_def by code_simp
  have n: "der_integer_value (sequenceNumber a) = 18446744073709551616"
    unfolding a_def by code_simp
  from sequence_number_exact[OF v, of 0] n show ?thesis
    unfolding a_def by simp
qed

section \<open>Inputs without the CT-log extension (C3)\<close>

text \<open>C3 says that a well-formed input whose extensions all carry an object identifier
  other than 1.3.6.1.4.1.311.10.3.52 decodes, with \<open>CTLogsVersion\<close> and \<open>CTLogs\<close> empty.
  This does not hold for every such identifier. \<open>parseCTL\<close> reads the identifier of each
  extension with \<^verbatim>\<open>ReadASN1ObjectIdentifier\<close> before it compares it, and that read
  accepts a subidentifier only below \<open>2 ^ 31\<close> (the guard
  \<^verbatim>\<open>ret >= 1<<(31-7)\<close> of \<^verbatim>\<open>readBase128Int\<close>, there so that the result does not
  depend on the width of \<^verbatim>\<open>int\<close>). The input below is well formed, its one extension
  carries the DER encoding of 1.3.2147483648, and decoding fails with
  \<^verbatim>\<open>error parsing CTL: malformed extension OBJECT IDENTIFIER\<close>.\<close>

theorem large_arc_extension_rejected:
  "well_formed Some (example_input (Some [example_large_arc])) \<and>
   extnID example_large_arc = oid_der [1, 3, 2147483648] \<and>
   ParseAuthrootstl Some
       \<lparr>ptr = 0, bytes = authroot_der (example_input (Some [example_large_arc]))\<rparr> =
     Inl (ErrorParsingCTL MalformedExtensionOBJECT_IDENTIFIER)"
  by code_simp

text \<open>C3, amended. When a well-formed input has no extensions block, or has one in which
  every extension carries the DER encoding of an object identifier other than
  1.3.6.1.4.1.311.10.3.52 whose subidentifiers (\<open>40 * first arc + second arc\<close>, then
  each later arc) are all below \<open>2 ^ 31\<close>, decoding succeeds: the sequence number and
  the effective date are those of the input, and \<open>CTLogsVersion\<close> and \<open>CTLogs\<close> are
  empty. (\<open>oids\<close> lists the object identifiers of the extensions, in order; the
  critical flag and the value of an extension are arbitrary.)\<close>

theorem no_ctlogs_extension_small_arcs:
  assumes "well_formed parseTime a"
    and "case extensions a of
           None \<Rightarrow> True
         | Some es \<Rightarrow> list_all2 small_other_extension es oids"
  shows "ParseAuthrootstl parseTime \<lparr>ptr = p, bytes = authroot_der a\<rparr> =
           Inr \<lparr>SequenceNumber = der_integer_value (sequenceNumber a),
                EffectiveDate = the (parseTime (effectiveDate a)),
                CTLogsVersion = [], CTLogs = []\<rparr>"
proof -
  from assms(2)
  have "case extensions a of None \<Rightarrow> True | Some es \<Rightarrow> \<forall>e \<in> set es. other_extension e"
    by (auto split: option.splits intro: list_all2_small_other)
  from ParseAuthrootstl_others[OF assms(1) this] show ?thesis
    by (simp add: header_fields_def)
qed

text \<open>The witness takes both cases: no extensions block, and a block with one critical
  extension whose identifier is that of a certificate trust list,
  1.3.6.1.4.1.311.10.1.\<close>

theorem no_ctlogs_extension_small_arcs_witness:
  "ParseAuthrootstl Some \<lparr>ptr = 0, bytes = authroot_der (example_input None)\<rparr> =
     Inr \<lparr>SequenceNumber = 1, EffectiveDate = utc0, CTLogsVersion = [], CTLogs = []\<rparr>
   \<and> ParseAuthrootstl Some
         \<lparr>ptr = 0, bytes = authroot_der (example_input (Some [example_other]))\<rparr> =
     Inr \<lparr>SequenceNumber = 1, EffectiveDate = utc0, CTLogsVersion = [], CTLogs = []\<rparr>"
proof -
  have w1: "well_formed Some (example_input None)" by code_simp
  have w2: "well_formed Some (example_input (Some [example_other]))" by code_simp
  have o1: "case extensions (example_input None) of
              None \<Rightarrow> True
            | Some es \<Rightarrow> list_all2 small_other_extension es []"
    by code_simp
  have o2: "case extensions (example_input (Some [example_other])) of
              None \<Rightarrow> True
            | Some es \<Rightarrow> list_all2 small_other_extension es [[1, 3, 6, 1, 4, 1, 311, 10, 1]]"
    by code_simp
  have n: "der_integer_value [0x01] = 1" by code_simp
  from no_ctlogs_extension_small_arcs[OF w1 o1, of 0] no_ctlogs_extension_small_arcs[OF w2 o2, of 0]
  show ?thesis by (simp add: n example_input_def)
qed

section \<open>Trailing bytes after the CTL (C4)\<close>

text \<open>C4. Whenever the CTL decoder accepts a buffer, the same buffer followed by at
  least one more byte is rejected with the error "trailing bytes after SEQUENCE":
  the bytes after the outer SEQUENCE are never ignored.\<close>

theorem parseCTL_trailing_bytes:
  assumes "parseCTL parseTime content = Inr ctl" and "extra \<noteq> []"
  shows "parseCTL parseTime (content\<lparr>bytes := bytes content @ extra\<rparr>)
           = Inl TrailingBytesAfterSEQUENCE"
proof -
  from assms(1) obtain sequence der' where
    r: "ReadASN1 content SEQUENCE = Some (sequence, der')"
    by (auto simp: parseCTL_def split: option.splits)
  show ?thesis
    using assms(2) by (simp add: parseCTL_def ReadASN1_append[OF r] Empty_def)
qed


theorem parseCTL_trailing_bytes_witness:
  "parseCTL Some \<lparr>ptr = 0, bytes = ctl0\<rparr> =
     Inr \<lparr>SequenceNumber = 1, EffectiveDate = utc0, CTLogsVersion = [], CTLogs = []\<rparr>
   \<and> parseCTL Some \<lparr>ptr = 0, bytes = ctl0 @ [0x00]\<rparr> = Inl TrailingBytesAfterSEQUENCE"
proof -
  have h: "parseCTL Some \<lparr>ptr = 0, bytes = ctl0\<rparr> =
     Inr \<lparr>SequenceNumber = 1, EffectiveDate = utc0, CTLogsVersion = [], CTLogs = []\<rparr>"
    by code_simp
  have "[0x00 :: byte] \<noteq> []" by simp
  from parseCTL_trailing_bytes[OF h this] h show ?thesis by simp
qed

section \<open>The public keys of the CT-log extension (C5)\<close>

text \<open>C5. When a well-formed input has one CT-log extension, among any number of
  well-formed extensions with other identifiers, decoding succeeds and \<open>CTLogs\<close> holds
  one entry for each SEQUENCE element that follows the version SEQUENCE, in the order
  of the input: the bytes of an entry are the whole element, tag and length included,
  and equal elements are all kept. \<open>CTLogsVersion\<close> holds the version integers. The
  witness is the scenario of the spec: sequence number 1, one version integer 1 and
  two keys of 10 and 20 bytes.\<close>

theorem ctlogs_in_order:
  assumes "well_formed parseTime a"
    and "extensions a = Some (pre @ e # post)"
    and "\<forall>x \<in> set pre. other_extension x"
    and "ctlogs_extension e versions spkis"
    and "\<forall>x \<in> set post. other_extension x"
  shows "\<exists>ctl. ParseAuthrootstl parseTime \<lparr>ptr = p, bytes = authroot_der a\<rparr> = Inr ctl
           \<and> map bytes (CTLogs ctl) = map (tlv SEQUENCE) spkis
           \<and> CTLogsVersion ctl = map int32_of versions"
proof -
  from assms(3) have "\<forall>x \<in> set pre. wf_extension x" by (simp add: wf_extension_def)
  from last_ctlogs_extension[OF assms(1,2) this assms(4,5), of p] show ?thesis by blast
qed

theorem ctlogs_in_order_witness:
  "\<exists>ctl. ParseAuthrootstl Some
            \<lparr>ptr = 0, bytes = authroot_der (example_input (Some [example_logs]))\<rparr> = Inr ctl
         \<and> map bytes (CTLogs ctl) = [tlv SEQUENCE spki10, tlv SEQUENCE spki20]
         \<and> length (CTLogs ctl) = 2
         \<and> map (\<lambda>k. length (bytes k)) (CTLogs ctl) = [10, 20]
         \<and> CTLogsVersion ctl = [1]"
proof -
  have w: "well_formed Some (example_input (Some [example_logs]))" by code_simp
  have x: "extensions (example_input (Some [example_logs])) = Some ([] @ example_logs # [])"
    by (simp add: example_input_def)
  have e: "ctlogs_extension example_logs [[0x01]] [spki10, spki20]" by code_simp
  have v: "map int32_of [[0x01]] = [1]" by code_simp
  have l: "map length [tlv SEQUENCE spki10, tlv SEQUENCE spki20] = [10, 20]" by code_simp
  have "\<exists>ctl. ParseAuthrootstl Some
            \<lparr>ptr = 0, bytes = authroot_der (example_input (Some [example_logs]))\<rparr> = Inr ctl
         \<and> map bytes (CTLogs ctl) = map (tlv SEQUENCE) [spki10, spki20]
         \<and> CTLogsVersion ctl = map int32_of [[0x01]]"
    using ctlogs_in_order[OF w x _ e, of 0] by simp
  then obtain ctl where
    c: "ParseAuthrootstl Some
            \<lparr>ptr = 0, bytes = authroot_der (example_input (Some [example_logs]))\<rparr> = Inr ctl"
      "map bytes (CTLogs ctl) = [tlv SEQUENCE spki10, tlv SEQUENCE spki20]"
      "CTLogsVersion ctl = [1]"
    unfolding v by auto
  from c(2) have "length (map bytes (CTLogs ctl)) = 2" by simp
  then have n: "length (CTLogs ctl) = 2" by simp
  from c(2) l have "map length (map bytes (CTLogs ctl)) = [10, 20]" by simp
  then have m: "map (\<lambda>k. length (bytes k)) (CTLogs ctl) = [10, 20]" by (simp add: comp_def)
  show ?thesis
    by (rule exI[of _ ctl]) (simp only: c n m simp_thms)
qed

section \<open>The retained byte blobs (C6)\<close>

text \<open>C6 says that the returned CTL holds no reference into the input buffer: every
  entry of \<open>CTLogs\<close> is a copy, so the buffer may be written to afterwards without
  changing the CTL. The code makes no copy. \<open>parseCTLogs\<close> appends
  \<^verbatim>\<open>[]byte(spki)\<close>, where \<^verbatim>\<open>spki\<close> is the sub-slice of the input that
  \<^verbatim>\<open>ReadASN1Element\<close> returned, and nothing between \<open>ParseAuthrootstl\<close> and that line
  copies the input.

  The 122 bytes of the example input are in memory from address 0 on. Decoding
  succeeds, and the first entry of \<open>CTLogs\<close> is the slice of 10 bytes at address 90,
  inside the input buffer. It shows the first public key; after a write of the byte 0
  at address 92 of the input buffer it shows other bytes.\<close>

theorem ctlogs_alias_input:
  "ParseAuthrootstl Some (view (memory_of example_der) 0 122) =
     Inr \<lparr>SequenceNumber = 1, EffectiveDate = utc0, CTLogsVersion = [1],
          CTLogs = [\<lparr>ptr = 90, bytes = tlv SEQUENCE spki10\<rparr>,
                    \<lparr>ptr = 100, bytes = tlv SEQUENCE spki20\<rparr>]\<rparr>
   \<and> reload (memory_of example_der) \<lparr>ptr = 90, bytes = tlv SEQUENCE spki10\<rparr> =
       [0x30, 0x08, 0xa0, 0xa1, 0xa2, 0xa3, 0xa4, 0xa5, 0xa6, 0xa7]
   \<and> reload ((memory_of example_der)(92 := 0x00)) \<lparr>ptr = 90, bytes = tlv SEQUENCE spki10\<rparr> =
       [0x30, 0x08, 0x00, 0xa1, 0xa2, 0xa3, 0xa4, 0xa5, 0xa6, 0xa7]"
proof -
  have "reload (memory_of example_der) \<lparr>ptr = 90, bytes = tlv SEQUENCE spki10\<rparr> =
       [0x30, 0x08, 0xa0, 0xa1, 0xa2, 0xa3, 0xa4, 0xa5, 0xa6, 0xa7]"
    by code_simp
  moreover
  have "reload ((memory_of example_der)(92 := 0x00)) \<lparr>ptr = 90, bytes = tlv SEQUENCE spki10\<rparr> =
       [0x30, 0x08, 0x00, 0xa1, 0xa2, 0xa3, 0xa4, 0xa5, 0xa6, 0xa7]"
    by code_simp
  ultimately show ?thesis
    by (simp only: view_example ParseAuthrootstl_example simp_thms)
qed

text \<open>C6, amended. For every successful decode of the \<open>n\<close> bytes at address \<open>p\<close>, every
  entry of \<open>CTLogs\<close> is a non-empty sub-slice of the input buffer: it lies within the
  address range of the buffer and shows the bytes the buffer holds there. It shares
  its memory with the input; no copy is made. (The other fields, \<open>SequenceNumber\<close>,
  \<open>EffectiveDate\<close> and \<open>CTLogsVersion\<close>, are numbers and a time: they hold no address.)\<close>

theorem ctlogs_share_input:
  assumes "ParseAuthrootstl parseTime (view m p n) = Inr ctl" "k \<in> set (CTLogs ctl)"
  shows "p \<le> ptr k \<and> ptr k + length (bytes k) \<le> p + n \<and> bytes k \<noteq> [] \<and>
         bytes k = reload m k"
proof -
  from ParseAuthrootstl_subslice[OF assms]
  have s: "subslice k (view m p n)" and ne: "bytes k \<noteq> []" by simp_all
  from subslice_view[OF s] ne show ?thesis by blast
qed

text \<open>The witness is the second entry of the example: the 20 bytes at address 100 of
  the 122 bytes at address 0.\<close>

theorem ctlogs_share_input_witness:
  "ParseAuthrootstl Some (view (memory_of example_der) 0 122) =
     Inr \<lparr>SequenceNumber = 1, EffectiveDate = utc0, CTLogsVersion = [1],
          CTLogs = [\<lparr>ptr = 90, bytes = tlv SEQUENCE spki10\<rparr>,
                    \<lparr>ptr = 100, bytes = tlv SEQUENCE spki20\<rparr>]\<rparr>
   \<and> (0 :: nat) \<le> 100 \<and> 100 + length (tlv SEQUENCE spki20) \<le> (0 :: nat) + 122
   \<and> tlv SEQUENCE spki20 \<noteq> []
   \<and> tlv SEQUENCE spki20 =
       reload (memory_of example_der) \<lparr>ptr = 100, bytes = tlv SEQUENCE spki20\<rparr>"
proof -
  have p: "ParseAuthrootstl Some (view (memory_of example_der) 0 122) =
     Inr \<lparr>SequenceNumber = 1, EffectiveDate = utc0, CTLogsVersion = [1],
          CTLogs = [\<lparr>ptr = 90, bytes = tlv SEQUENCE spki10\<rparr>,
                    \<lparr>ptr = 100, bytes = tlv SEQUENCE spki20\<rparr>]\<rparr>"
    by (simp only: view_example ParseAuthrootstl_example)
  from ctlogs_share_input[OF p, of "\<lparr>ptr = 100, bytes = tlv SEQUENCE spki20\<rparr>"] p
  show ?thesis by simp
qed

section \<open>The outer content type (C7)\<close>

text \<open>C7. \<open>parsePKCS7\<close> skips the content-type OBJECT IDENTIFIER of the outer SEQUENCE
  and never looks at its value. Two inputs that differ only in the contents of that
  element have the same outcome: the same error, or the same inner content type and
  the same content bytes. (\<open>rest\<close> is whatever follows the identifier inside the outer
  SEQUENCE and \<open>extra\<close> whatever follows the SEQUENCE; neither need be well formed. The
  length of the outer SEQUENCE is encoded anew for each identifier.)\<close>

theorem outer_content_type_ignored:
  assumes "length (tlv SEQUENCE (tlv OBJECT_IDENTIFIER oid1 @ rest)) < 2 ^ 32"
    and "length (tlv SEQUENCE (tlv OBJECT_IDENTIFIER oid2 @ rest)) < 2 ^ 32"
  shows "outcome (parsePKCS7
                    \<lparr>ptr = p, bytes = tlv SEQUENCE (tlv OBJECT_IDENTIFIER oid1 @ rest) @ extra\<rparr>)
       = outcome (parsePKCS7
                    \<lparr>ptr = p, bytes = tlv SEQUENCE (tlv OBJECT_IDENTIFIER oid2 @ rest) @ extra\<rparr>)"
  unfolding outer_type_skipped[OF assms(1)] outer_type_skipped[OF assms(2)] ..

text \<open>In the witness the identifier is that of SignedData in one input and 2.5.4.3 in
  the other; both yield the content type 1.3.6.1.4.1.311.10.1 and the CTL body.\<close>

theorem outer_content_type_ignored_witness:
  "outcome (parsePKCS7
     \<lparr>ptr = 0, bytes = tlv SEQUENCE (tlv OBJECT_IDENTIFIER signedData_oid @ example_signedData)\<rparr>)
     = Inr ([1, 3, 6, 1, 4, 1, 311, 10, 1], ctl0)
   \<and> outcome (parsePKCS7
     \<lparr>ptr = 0, bytes = tlv SEQUENCE (tlv OBJECT_IDENTIFIER [0x55, 0x04, 0x03] @ example_signedData)\<rparr>)
     = Inr ([1, 3, 6, 1, 4, 1, 311, 10, 1], ctl0)"
proof -
  have 1: "length (tlv SEQUENCE (tlv OBJECT_IDENTIFIER signedData_oid @ example_signedData)) < 2 ^ 32"
    by code_simp
  have 2: "length (tlv SEQUENCE (tlv OBJECT_IDENTIFIER [0x55, 0x04, 0x03] @ example_signedData)) < 2 ^ 32"
    by code_simp
  have e: "outcome (parsePKCS7
     \<lparr>ptr = 0, bytes = tlv SEQUENCE (tlv OBJECT_IDENTIFIER signedData_oid @ example_signedData)\<rparr>)
     = Inr ([1, 3, 6, 1, 4, 1, 311, 10, 1], ctl0)"
    by code_simp
  from outer_content_type_ignored[OF 1 2, of 0 "[]"] e show ?thesis by simp
qed

section \<open>A version that does not fit 32 bits (C8)\<close>

text \<open>C8. When the version SEQUENCE of the CT-log extension holds a minimally encoded
  INTEGER whose value is outside the signed 32-bit range, decoding fails, with the
  error "version SEQUENCE contains malformed INTEGER" inside "error parsing CT logs
  extension" inside "error parsing CTL": the value is neither cut nor wrapped. (The
  integers before it fit, and the extensions before this one are well formed, so that
  the decoder gets as far as this integer.)\<close>

theorem version_out_of_range:
  assumes "well_formed parseTime a"
    and "extensions a = Some (pre @ e # post)"
    and "\<forall>x \<in> set pre. wf_extension x"
    and "oid_arcs (extnID e) = Some ctlogs_oid"
    and "extnValue e = LogList (vpre @ bad # vpost) spkis"
    and "\<forall>v \<in> set vpre. version_ok v"
    and "checkASN1Integer bad" and "\<not> fits_int32 (der_integer_value bad)"
  shows "ParseAuthrootstl parseTime \<lparr>ptr = p, bytes = authroot_der a\<rparr>
           = Inl (ErrorParsingCTL (ErrorParsingCTLogsExtension VersionSEQUENCEContainsMalformedINTEGER))"
proof -
  from assms(8) have "\<not> version_ok bad" by (simp add: version_ok_def)
  from bad_version_fails[OF assms(1-6) this] show ?thesis .
qed

text \<open>In the witness the versions are 1 and \<open>2 ^ 31\<close>, the smallest value that does not
  fit.\<close>

theorem version_out_of_range_witness:
  "der_integer_value [0x00, 0x80, 0x00, 0x00, 0x00] = 2147483648
   \<and> ParseAuthrootstl Some
        \<lparr>ptr = 0, bytes = authroot_der (example_input (Some
           [\<lparr>extnID = ctlogs_oid_der, critical = None,
             extnValue = LogList [[0x01], [0x00, 0x80, 0x00, 0x00, 0x00]] [spki10]\<rparr>]))\<rparr>
       = Inl (ErrorParsingCTL (ErrorParsingCTLogsExtension VersionSEQUENCEContainsMalformedINTEGER))"
proof -
  define e where "e = \<lparr>extnID = ctlogs_oid_der, critical = None,
             extnValue = LogList [[0x01], [0x00, 0x80, 0x00, 0x00, 0x00]] [spki10]\<rparr>"
  have w: "well_formed Some (example_input (Some [e]))" unfolding e_def by code_simp
  have x: "extensions (example_input (Some [e])) = Some ([] @ e # [])"
    by (simp add: example_input_def)
  have o: "oid_arcs (extnID e) = Some ctlogs_oid" unfolding e_def by code_simp
  have l: "extnValue e = LogList ([[0x01]] @ [0x00, 0x80, 0x00, 0x00, 0x00] # []) [spki10]"
    by (simp add: e_def)
  have p: "\<forall>v \<in> set [[0x01 :: byte]]. version_ok v" by code_simp
  have c: "checkASN1Integer [0x00, 0x80, 0x00, 0x00, 0x00]" by code_simp
  have n: "der_integer_value [0x00, 0x80, 0x00, 0x00, 0x00] = 2147483648" by code_simp
  have f: "\<not> fits_int32 (der_integer_value [0x00, 0x80, 0x00, 0x00, 0x00])"
    unfolding n by (simp add: fits_int32_def)
  from version_out_of_range[OF w x _ o l p c f, of 0] n show ?thesis
    unfolding e_def by simp
qed

section \<open>Bytes the envelope decoder ignores (C9)\<close>

text \<open>C9. The envelope decoder never asks whether anything is left over. Whenever an
  input is accepted, the same input followed by any further bytes is accepted too, with
  the same CTL. And an element placed after the content element inside the inner
  \<open>[0]\<close> wrapper is passed over as well: the example \<open>junk_inside\<close> decodes to the
  CTL of the body it wraps.\<close>

theorem envelope_leftovers_ignored:
  assumes "ParseAuthrootstl parseTime der = Inr ctl"
  shows "ParseAuthrootstl parseTime (der\<lparr>bytes := bytes der @ extra\<rparr>) = Inr ctl
       \<and> ParseAuthrootstl Some \<lparr>ptr = 0, bytes = junk_inside\<rparr>
           = Inr \<lparr>SequenceNumber = 1, EffectiveDate = utc0, CTLogsVersion = [], CTLogs = []\<rparr>"
proof
  from ParseAuthrootstl_append[OF assms]
  show "ParseAuthrootstl parseTime (der\<lparr>bytes := bytes der @ extra\<rparr>) = Inr ctl" .
next
  show "ParseAuthrootstl Some \<lparr>ptr = 0, bytes = junk_inside\<rparr>
           = Inr \<lparr>SequenceNumber = 1, EffectiveDate = utc0, CTLogsVersion = [], CTLogs = []\<rparr>"
    by code_simp
qed

text \<open>The witness appends two bytes to the example input without extensions.\<close>

theorem envelope_leftovers_ignored_witness:
  "ParseAuthrootstl Some \<lparr>ptr = 0, bytes = authroot_der (example_input None)\<rparr>
     = Inr \<lparr>SequenceNumber = 1, EffectiveDate = utc0, CTLogsVersion = [], CTLogs = []\<rparr>
   \<and> ParseAuthrootstl Some
         \<lparr>ptr = 0, bytes = authroot_der (example_input None) @ [0xde, 0xad]\<rparr>
     = Inr \<lparr>SequenceNumber = 1, EffectiveDate = utc0, CTLogsVersion = [], CTLogs = []\<rparr>"
proof -
  have p: "ParseAuthrootstl Some \<lparr>ptr = 0, bytes = authroot_der (example_input None)\<rparr>
     = Inr \<lparr>SequenceNumber = 1, EffectiveDate = utc0, CTLogsVersion = [], CTLogs = []\<rparr>"
    by code_simp
  from envelope_leftovers_ignored[OF p, of "[0xde, 0xad]"] p show ?thesis by simp
qed

section \<open>Several CT-log extensions (C10)\<close>

text \<open>C10. When the extensions of a well-formed input contain the CT-log identifier
  more than once, each time with a well-formed value, decoding succeeds and
  \<open>CTLogsVersion\<close> and \<open>CTLogs\<close> are those of the last such extension in the input:
  what the earlier ones gave is overwritten. (\<open>pre\<close> may hold any well-formed
  extensions, CT-log extensions among them; \<open>e\<close> is the last CT-log extension.)\<close>

theorem last_ctlogs_extension_wins:
  assumes "well_formed parseTime a"
    and "extensions a = Some (pre @ e # post)"
    and "\<forall>x \<in> set pre. wf_extension x"
    and "ctlogs_extension e versions spkis"
    and "\<forall>x \<in> set post. other_extension x"
  shows "\<exists>ctl. ParseAuthrootstl parseTime \<lparr>ptr = p, bytes = authroot_der a\<rparr> = Inr ctl
           \<and> CTLogsVersion ctl = map int32_of versions
           \<and> map bytes (CTLogs ctl) = map (tlv SEQUENCE) spkis"
  using last_ctlogs_extension[OF assms, of p] by blast

text \<open>In the witness the first CT-log extension has version 1 and two keys, the second
  has version 2 and one key, and an extension with another identifier follows.\<close>

theorem last_ctlogs_extension_wins_witness:
  "\<exists>ctl. ParseAuthrootstl Some
            \<lparr>ptr = 0, bytes = authroot_der (example_input (Some
               [example_logs,
                \<lparr>extnID = ctlogs_oid_der, critical = Some [0xff],
                  extnValue = LogList [[0x02]] [spki20]\<rparr>,
                example_other]))\<rparr> = Inr ctl
         \<and> CTLogsVersion ctl = [2]
         \<and> map bytes (CTLogs ctl) = [tlv SEQUENCE spki20]"
proof -
  define e where "e = \<lparr>extnID = ctlogs_oid_der, critical = Some [0xff],
                  extnValue = LogList [[0x02]] [spki20]\<rparr>"
  have w: "well_formed Some (example_input (Some [example_logs, e, example_other]))"
    unfolding e_def by code_simp
  have x: "extensions (example_input (Some [example_logs, e, example_other]))
             = Some ([example_logs] @ e # [example_other])"
    by (simp add: example_input_def)
  have p: "\<forall>x \<in> set [example_logs]. wf_extension x" by code_simp
  have c: "ctlogs_extension e [[0x02]] [spki20]" unfolding e_def by code_simp
  have o: "\<forall>x \<in> set [example_other]. other_extension x" by code_simp
  have v: "map int32_of [[0x02]] = [2]" by code_simp
  from last_ctlogs_extension_wins[OF w x p c o, of 0] v show ?thesis
    unfolding e_def by simp
qed

end
